theory Spec2Isabelle
  imports Complex_Main "HOL-Library.Log_Nat"
begin

section \<open>JavaScript numbers and arrays, as far as the program uses them\<close>

text \<open>
  Every number the maze code computes with is an integer held in an IEEE double.
  Integers below \<open>2^53\<close> in magnitude are exact; a product or a sum beyond that is
  rounded to 53 significant bits, to nearest, ties to even. \<open>fl53\<close> is that rounding
  on integers, \<open>round_shift e\<close> the rounding to a multiple of \<open>2^e\<close> (the exponent range
  of doubles is not modelled: it is only left by magnitudes beyond \<open>2^1023\<close>). \<open>js_rem\<close>
  is the operator \<open>%\<close>: exact, with the sign of the dividend.
\<close>

definition round_shift :: "nat \<Rightarrow> int \<Rightarrow> int" where
  "round_shift e a =
     (let q = a div 2 ^ e; r = a mod 2 ^ e; h = 2 ^ (e - 1)
      in (if h < r \<or> (r = h \<and> odd q) then q + 1 else q) * 2 ^ e)"

definition fl53 :: "int \<Rightarrow> int" where
  "fl53 x =
     (let a = \<bar>x\<bar>; e = nat (bitlen a - 53)
      in if e = 0 then x else sgn x * round_shift e a)"

definition js_mul :: "int \<Rightarrow> int \<Rightarrow> int" where
  "js_mul x y = fl53 (x * y)"

definition js_add :: "int \<Rightarrow> int \<Rightarrow> int" where
  "js_add x y = fl53 (x + y)"

definition js_rem :: "int \<Rightarrow> int \<Rightarrow> int" where
  "js_rem x m = sgn x * (\<bar>x\<bar> mod m)"

text \<open>
  Reading \<open>xs[i]\<close>: \<open>undefined\<close> (here \<open>None\<close>) outside the array. Reading a property
  of \<open>undefined\<close> throws a TypeError.
\<close>

definition js_index :: "'a list \<Rightarrow> int \<Rightarrow> 'a option" where
  "js_index xs i = (if 0 \<le> i \<and> i < int (length xs) then Some (xs ! nat i) else None)"

datatype error = TypeError | SparseWrite

section \<open>SeededRandom\<close>

text \<open>
  The generator's state is the field \<open>seed\<close>. \<open>next()\<close> (here \<open>rng_next\<close>) stores
  \<open>(seed * 1103515245 + 12345) % 2 ** 31\<close> and returns that number divided by
  \<open>2 ** 31\<close>, a division that is exact in a double. \<open>nextInt(max)\<close> is
  \<open>Math.floor(next() * max)\<close>: the product is the double nearest to
  \<open>seed * max / 2^31\<close>, which is \<open>fl53 (seed * max) / 2^31\<close> since scaling by a power
  of two commutes with rounding.
\<close>

definition next_seed :: "int \<Rightarrow> int" where
  "next_seed s = js_rem (js_add (js_mul s 1103515245) 12345) (2 ^ 31)"

definition rng_next :: "int \<Rightarrow> int \<times> rat" where
  "rng_next s = (next_seed s, of_int (next_seed s) / 2 ^ 31)"

definition nextInt :: "int \<Rightarrow> int \<Rightarrow> int \<times> int" where
  "nextInt s mx = (next_seed s, fl53 (next_seed s * mx) div 2 ^ 31)"

section \<open>The maze: rooms, doors, building\<close>

record DoorConnection =
  toRoom :: int
  toDoor :: int

record Room =
  room_id :: int
  label :: int
  doors :: "DoorConnection list"

record Building =
  rooms :: "Room list"
  startingRoom :: int

text \<open>The two copies of \<open>generateBuilding\<close> differ in one line, the label of a new room:
  \<open>rng.nextInt(4)\<close> in the simulator page, \<open>i % 4\<close> in the step-by-step page.\<close>

datatype labelling = RandomLabels | IndexLabels

definition unassigned :: DoorConnection where
  "unassigned = \<lparr>toRoom = - 1, toDoor = - 1\<rparr>"

definition new_room :: "nat \<Rightarrow> int \<Rightarrow> Room" where
  "new_room i l = \<lparr>room_id = int i, label = l, doors = replicate 6 unassigned\<rparr>"

fun init_rooms :: "labelling \<Rightarrow> nat list \<Rightarrow> int \<Rightarrow> int \<times> Room list" where
  "init_rooms v [] s = (s, [])"
| "init_rooms RandomLabels (i # is) s =
     (let (s1, l) = nextInt s 4; (s2, rs) = init_rooms RandomLabels is s1
      in (s2, new_room i l # rs))"
| "init_rooms IndexLabels (i # is) s =
     (let (s2, rs) = init_rooms IndexLabels is s
      in (s2, new_room i (int i mod 4) # rs))"

text \<open>
  \<open>connectRooms\<close> writes the door of the first room, then, unless both ends are the same
  door, the door of the second. A missing room throws. A door index outside the array
  would grow the array or set a property; the model stops with \<open>SparseWrite\<close> there, and
  \<open>generateBuilding\<close> never reaches it (lemma \<open>generateBuilding_no_sparse_write\<close>).
\<close>

definition set_door :: "Room list \<Rightarrow> int \<Rightarrow> int \<Rightarrow> DoorConnection \<Rightarrow> error + Room list" where
  "set_door rs r d c =
     (case js_index rs r of
        None \<Rightarrow> Inl TypeError
      | Some room \<Rightarrow>
          if 0 \<le> d \<and> d < int (length (doors room))
          then Inr (rs[nat r := room\<lparr>doors := (doors room)[nat d := c]\<rparr>])
          else Inl SparseWrite)"

definition connectRooms :: "Room list \<Rightarrow> int \<Rightarrow> int \<Rightarrow> int \<Rightarrow> int \<Rightarrow> error + Room list" where
  "connectRooms rs fromRoom fromDoor toRoom' toDoor' =
     (case set_door rs fromRoom fromDoor \<lparr>toRoom = toRoom', toDoor = toDoor'\<rparr> of
        Inl e \<Rightarrow> Inl e
      | Inr rs1 \<Rightarrow>
          if fromRoom \<noteq> toRoom' \<or> fromDoor \<noteq> toDoor'
          then set_door rs1 toRoom' toDoor' \<lparr>toRoom = fromRoom, toDoor = fromDoor\<rparr>
          else Inr rs1)"

definition isDoorAvailable :: "Room list \<Rightarrow> int \<Rightarrow> int \<Rightarrow> error + bool" where
  "isDoorAvailable rs roomId doorId =
     (case js_index rs roomId of
        None \<Rightarrow> Inl TypeError
      | Some room \<Rightarrow>
          (case js_index (doors room) doorId of
             None \<Rightarrow> Inl TypeError
           | Some c \<Rightarrow> Inr (toRoom c = - 1)))"

text \<open>\<open>doors.findIndex\<close> with the availability test: the first unassigned door, or \<open>-1\<close>.\<close>

fun find_index_from :: "int \<Rightarrow> DoorConnection list \<Rightarrow> int" where
  "find_index_from i [] = - 1"
| "find_index_from i (c # cs) = (if toRoom c = - 1 then i else find_index_from (i + 1) cs)"

definition findAvailable :: "Room \<Rightarrow> int" where
  "findAvailable room = find_index_from 0 (doors room)"

subsection \<open>Spanning phase\<close>

text \<open>
  The inner \<open>for\<close> loop over \<open>targetRoom\<close>: the first room not yet visited for which both
  rooms have a free door, with those doors; \<open>None\<close> when the loop ends without a
  \<open>break\<close>.
\<close>

fun scanTargets ::
  "Room list \<Rightarrow> nat list \<Rightarrow> nat \<Rightarrow> nat list \<Rightarrow> error + (nat \<times> int \<times> int) option" where
  "scanTargets rs visited cur [] = Inr None"
| "scanTargets rs visited cur (t # ts) =
     (if t \<in> set visited then scanTargets rs visited cur ts
      else (case js_index rs (int cur) of
              None \<Rightarrow> Inl TypeError
            | Some cr \<Rightarrow>
                (case js_index rs (int t) of
                   None \<Rightarrow> Inl TypeError
                 | Some tr \<Rightarrow>
                     (let fromDoor = findAvailable cr; toDoor' = findAvailable tr
                      in if fromDoor \<noteq> - 1 \<and> toDoor' \<noteq> - 1
                         then Inr (Some (t, fromDoor, toDoor'))
                         else scanTargets rs visited cur ts))))"

text \<open>
  The \<open>while\<close> loop. \<open>visited\<close> is the Set in insertion order (a room is added only when
  it is not a member, so its size is the length of the list), \<open>queue\<close> the array used as
  a queue.
\<close>

function spanning :: "nat \<Rightarrow> Room list \<Rightarrow> nat list \<Rightarrow> nat list \<Rightarrow> error + Room list" where
  "spanning numRooms rs visited [] = Inr rs"
| "spanning numRooms rs visited (cur # queue) =
     (if \<not> length visited < numRooms then Inr rs
      else (case scanTargets rs visited cur [0..<numRooms] of
              Inl e \<Rightarrow> Inl e
            | Inr None \<Rightarrow> spanning numRooms rs visited queue
            | Inr (Some (t, fromDoor, toDoor')) \<Rightarrow>
                (case connectRooms rs (int cur) fromDoor (int t) toDoor' of
                   Inl e \<Rightarrow> Inl e
                 | Inr rs' \<Rightarrow> spanning numRooms rs' (visited @ [t]) (queue @ [t]))))"
  by pat_completeness auto
termination
  by (relation "measures [\<lambda>(n, rs, visited, queue). n - length visited,
                          \<lambda>(n, rs, visited, queue). length queue]") auto

subsection \<open>Augmentation phase\<close>

fun augment :: "nat \<Rightarrow> int \<Rightarrow> int \<Rightarrow> Room list \<Rightarrow> error + (int \<times> Room list)" where
  "augment 0 numRooms s rs = Inr (s, rs)"
| "augment (Suc k) numRooms s rs =
     (let (s1, room1) = nextInt s numRooms;
          (s2, room2) = nextInt s1 numRooms;
          (s3, door1) = nextInt s2 6;
          (s4, door2) = nextInt s3 6
      in (case isDoorAvailable rs room1 door1 of
            Inl e \<Rightarrow> Inl e
          | Inr False \<Rightarrow> augment k numRooms s4 rs
          | Inr True \<Rightarrow>
              (case isDoorAvailable rs room2 door2 of
                 Inl e \<Rightarrow> Inl e
               | Inr False \<Rightarrow> augment k numRooms s4 rs
               | Inr True \<Rightarrow>
                   (case connectRooms rs room1 door1 room2 door2 of
                      Inl e \<Rightarrow> Inl e
                    | Inr rs' \<Rightarrow> augment k numRooms s4 rs'))))"

subsection \<open>Closure phase\<close>

text \<open>The \<open>do \<dots> while\<close> loop that draws a target; \<open>attempts\<close> counts the draws made.\<close>

function drawTarget ::
  "Room list \<Rightarrow> int \<Rightarrow> int \<Rightarrow> int \<Rightarrow> int \<Rightarrow> nat \<Rightarrow> error + (int \<times> int \<times> int)" where
  "drawTarget rs numRooms roomId door s attempts =
     (let (s1, targetRoom) = nextInt s numRooms;
          (s2, targetDoor) = nextInt s1 6
      in if attempts + 1 > 20 then Inr (s2, roomId, door)
         else (case isDoorAvailable rs targetRoom targetDoor of
                 Inl e \<Rightarrow> Inl e
               | Inr av \<Rightarrow>
                   if \<not> av \<and> \<not> (targetRoom = roomId \<and> targetDoor = door)
                   then drawTarget rs numRooms roomId door s2 (attempts + 1)
                   else Inr (s2, targetRoom, targetDoor)))"
  by pat_completeness auto
termination
  by (relation "measure (\<lambda>(rs, numRooms, roomId, door, s, attempts). 21 - attempts)") auto

definition closeDoor :: "int \<Rightarrow> int \<Rightarrow> Room list \<Rightarrow> nat \<times> nat \<Rightarrow> error + (int \<times> Room list)" where
  "closeDoor numRooms s rs slot =
     (case slot of (roomId, door) \<Rightarrow>
        (case isDoorAvailable rs (int roomId) (int door) of
           Inl e \<Rightarrow> Inl e
         | Inr False \<Rightarrow> Inr (s, rs)
         | Inr True \<Rightarrow>
             (case drawTarget rs numRooms (int roomId) (int door) s 0 of
                Inl e \<Rightarrow> Inl e
              | Inr (s', targetRoom, targetDoor) \<Rightarrow>
                  (case connectRooms rs (int roomId) (int door) targetRoom targetDoor of
                     Inl e \<Rightarrow> Inl e
                   | Inr rs' \<Rightarrow> Inr (s', rs')))))"

fun closeDoors :: "int \<Rightarrow> int \<Rightarrow> Room list \<Rightarrow> (nat \<times> nat) list \<Rightarrow> error + (int \<times> Room list)" where
  "closeDoors numRooms s rs [] = Inr (s, rs)"
| "closeDoors numRooms s rs (slot # slots) =
     (case closeDoor numRooms s rs slot of
        Inl e \<Rightarrow> Inl e
      | Inr (s', rs') \<Rightarrow> closeDoors numRooms s' rs' slots)"

text \<open>The (room, door) pairs in the order in which the nested \<open>for\<close> statements visit them.\<close>

definition all_slots :: "nat \<Rightarrow> (nat \<times> nat) list" where
  "all_slots n = concat (map (\<lambda>r. map (\<lambda>d. (r, d)) [0..<6]) [0..<n])"

subsection \<open>generateBuilding\<close>

definition generateBuilding :: "labelling \<Rightarrow> nat \<Rightarrow> int \<Rightarrow> error + Building" where
  "generateBuilding v numRooms seed =
     (case init_rooms v [0..<numRooms] seed of (s0, rs0) \<Rightarrow>
        (case spanning numRooms rs0 [0] [0] of
           Inl e \<Rightarrow> Inl e
         | Inr rs1 \<Rightarrow>
             (case augment (numRooms * 2) (int numRooms) s0 rs1 of
                Inl e \<Rightarrow> Inl e
              | Inr (s1, rs2) \<Rightarrow>
                  (case closeDoors (int numRooms) s1 rs2 (all_slots numRooms) of
                     Inl e \<Rightarrow> Inl e
                   | Inr (s2, rs3) \<Rightarrow> Inr \<lparr>rooms = rs3, startingRoom = 0\<rparr>))))"

section \<open>Walk simulators\<close>

text \<open>
  \<open>Number.parseInt(c, 10)\<close> of a one-character string is the digit's value, or \<open>NaN\<close> for
  any other character. Every comparison with \<open>NaN\<close> is false, and \<open>xs[NaN]\<close> is
  \<open>undefined\<close>. Strings are lists of code units.
\<close>

datatype jsnum = NaN | Num int

definition parseInt10 :: "char \<Rightarrow> jsnum" where
  "parseInt10 c =
     (let n = (of_char c :: nat) in if 48 \<le> n \<and> n \<le> 57 then Num (int n - 48) else NaN)"

definition js_less :: "jsnum \<Rightarrow> jsnum \<Rightarrow> bool" where
  "js_less x y = (case x of NaN \<Rightarrow> False | Num a \<Rightarrow> (case y of NaN \<Rightarrow> False | Num b \<Rightarrow> a < b))"

definition js_elem :: "'a list \<Rightarrow> jsnum \<Rightarrow> 'a option" where
  "js_elem xs x = (case x of NaN \<Rightarrow> None | Num i \<Rightarrow> js_index xs i)"

subsection \<open>simulateExploration (simulator page)\<close>

fun explore_loop :: "Building \<Rightarrow> int \<Rightarrow> int list \<Rightarrow> string \<Rightarrow> error + int list" where
  "explore_loop b currentRoom result [] = Inr result"
| "explore_loop b currentRoom result (doorChar # plan) =
     (let door = parseInt10 doorChar
      in if js_less door (Num 0) \<or> js_less (Num 5) door
         then explore_loop b currentRoom result plan
         else (case js_index (rooms b) currentRoom of
                 None \<Rightarrow> Inl TypeError
               | Some room \<Rightarrow>
                   (case js_elem (doors room) door of
                      None \<Rightarrow> Inl TypeError
                    | Some doorConnection \<Rightarrow>
                        (let currentRoom' =
                               (if toRoom doorConnection \<noteq> - 1 then toRoom doorConnection
                                else currentRoom)
                         in (case js_index (rooms b) currentRoom' of
                               None \<Rightarrow> Inl TypeError
                             | Some room' \<Rightarrow>
                                 explore_loop b currentRoom' (result @ [label room']) plan)))))"

definition simulateExploration :: "Building \<Rightarrow> string \<Rightarrow> error + int list" where
  "simulateExploration b routePlan =
     (case js_index (rooms b) (startingRoom b) of
        None \<Rightarrow> Inl TypeError
      | Some room \<Rightarrow> explore_loop b (startingRoom b) [label room] routePlan)"

subsection \<open>simulateExplorationSteps (step-by-step page)\<close>

record ExplorationState =
  st_roomId :: int
  st_label :: int
  doorTaken :: "int option"

record ExplorationStep =
  currentState :: ExplorationState
  previousState :: "ExplorationState option"
  stepIndex :: nat
  totalSteps :: nat

text \<open>The \<open>for\<close> loop over \<open>i\<close>; \<open>tot\<close> is \<open>routePlan.length + 1\<close>, and the plan argument
  is what remains from position \<open>i\<close> on.\<close>

fun steps_loop ::
  "Building \<Rightarrow> nat \<Rightarrow> int \<Rightarrow> ExplorationStep list \<Rightarrow> nat \<Rightarrow> string \<Rightarrow> error + ExplorationStep list" where
  "steps_loop b tot currentRoom steps i [] = Inr steps"
| "steps_loop b tot currentRoom steps i (doorChar # plan) =
     (let door = parseInt10 doorChar
      in if js_less door (Num 0) \<or> js_less (Num 5) door
         then steps_loop b tot currentRoom steps (i + 1) plan
         else (case js_index (rooms b) currentRoom of
                 None \<Rightarrow> Inl TypeError
               | Some room \<Rightarrow>
                   (let prev = \<lparr>st_roomId = currentRoom, st_label = label room,
                                 doorTaken = (case door of NaN \<Rightarrow> None | Num d \<Rightarrow> Some d)\<rparr>
                    in (case js_elem (doors room) door of
                          None \<Rightarrow> Inl TypeError
                        | Some doorConnection \<Rightarrow>
                            (let currentRoom' =
                                   (if toRoom doorConnection \<noteq> - 1 then toRoom doorConnection
                                    else currentRoom)
                             in (case js_index (rooms b) currentRoom' of
                                   None \<Rightarrow> Inl TypeError
                                 | Some room' \<Rightarrow>
                                     steps_loop b tot currentRoom'
                                       (steps @
                                        [\<lparr>currentState =
                                            \<lparr>st_roomId = currentRoom', st_label = label room',
                                             doorTaken = None\<rparr>,
                                          previousState = Some prev,
                                          stepIndex = i + 1,
                                          totalSteps = tot\<rparr>])
                                       (i + 1) plan))))))"

definition simulateExplorationSteps :: "Building \<Rightarrow> string \<Rightarrow> error + ExplorationStep list" where
  "simulateExplorationSteps b routePlan =
     (case js_index (rooms b) (startingRoom b) of
        None \<Rightarrow> Inl TypeError
      | Some room \<Rightarrow>
          steps_loop b (length routePlan + 1) (startingRoom b)
            [\<lparr>currentState =
                \<lparr>st_roomId = startingRoom b, st_label = label room, doorTaken = None\<rparr>,
              previousState = None,
              stepIndex = 0,
              totalSteps = length routePlan + 1\<rparr>]
            0 routePlan)"

section \<open>Visualization: the connections list\<close>

text \<open>
  An entry of \<open>conns\<close>, reduced to the room and door numbers of its two ends (the
  coordinates and, on the step-by-step page, the styling are computed from them and from
  the walk; they do not decide which entries exist). The de-duplication keys are
  template strings made of a tag and decimal numbers separated by \<open>-\<close>; for the
  non-negative numbers of a maze such a string determines its numbers, so the keys are
  kept as the tuples they print.
\<close>

record Connection =
  from_room :: int
  from_door :: int
  to_room :: int
  to_door :: int

datatype conn_key = SelfKey int int int | PairKey int int int int

datatype page = SimulatorPage | StepsPage

definition connectionKey :: "page \<Rightarrow> int \<Rightarrow> int \<Rightarrow> int \<Rightarrow> int \<Rightarrow> conn_key" where
  "connectionKey pg rid door targetRoom targetDoor =
     (case pg of
        SimulatorPage \<Rightarrow>
          (if rid = targetRoom then SelfKey rid door targetDoor
           else PairKey (min rid targetRoom) (min door targetDoor)
                        (max rid targetRoom) (max door targetDoor))
      | StepsPage \<Rightarrow>
          (if rid = targetRoom then SelfKey rid (min door targetDoor) (max door targetDoor)
           else if rid < targetRoom then PairKey rid door targetRoom targetDoor
           else PairKey targetRoom targetDoor rid door))"

text \<open>
  One pass of the inner loop, for one door of one room. \<open>roomPositions\<close> holds a position
  for each index of the rooms array; looking up another number gives \<open>undefined\<close>, whose
  \<open>x\<close> cannot be read.
\<close>

definition conn_door ::
  "page \<Rightarrow> nat \<Rightarrow> Room \<Rightarrow> Connection list \<times> conn_key list \<Rightarrow> nat \<Rightarrow>
   error + (Connection list \<times> conn_key list)" where
  "conn_door pg len room st door =
     (case st of (conns, seen) \<Rightarrow>
        (case js_index (doors room) (int door) of
           None \<Rightarrow> Inl TypeError
         | Some doorConnection \<Rightarrow>
             if toRoom doorConnection \<noteq> - 1
             then (let targetRoom = toRoom doorConnection;
                       targetDoor = toDoor doorConnection;
                       key = connectionKey pg (room_id room) (int door) targetRoom targetDoor
                   in if room_id room = targetRoom \<or> key \<notin> set seen
                      then (if 0 \<le> room_id room \<and> room_id room < int len \<and>
                               0 \<le> targetRoom \<and> targetRoom < int len
                            then Inr (conns @ [\<lparr>from_room = room_id room, from_door = int door,
                                                 to_room = targetRoom, to_door = targetDoor\<rparr>],
                                      if room_id room \<noteq> targetRoom then seen @ [key] else seen)
                            else Inl TypeError)
                      else Inr (conns, seen))
             else Inr (conns, seen)))"

fun conn_doors ::
  "page \<Rightarrow> nat \<Rightarrow> Room \<Rightarrow> Connection list \<times> conn_key list \<Rightarrow> nat list \<Rightarrow>
   error + (Connection list \<times> conn_key list)" where
  "conn_doors pg len room st [] = Inr st"
| "conn_doors pg len room st (door # ds) =
     (case conn_door pg len room st door of
        Inl e \<Rightarrow> Inl e
      | Inr st' \<Rightarrow> conn_doors pg len room st' ds)"

fun conn_rooms ::
  "page \<Rightarrow> nat \<Rightarrow> Connection list \<times> conn_key list \<Rightarrow> Room list \<Rightarrow>
   error + (Connection list \<times> conn_key list)" where
  "conn_rooms pg len st [] = Inr st"
| "conn_rooms pg len st (room # rs) =
     (case conn_doors pg len room st [0..<6] of
        Inl e \<Rightarrow> Inl e
      | Inr st' \<Rightarrow> conn_rooms pg len st' rs)"

definition connections :: "page \<Rightarrow> Building \<Rightarrow> error + Connection list" where
  "connections pg b =
     (case conn_rooms pg (length (rooms b)) ([], []) (rooms b) of
        Inl e \<Rightarrow> Inl e
      | Inr (conns, seen) \<Rightarrow> Inr conns)"

section \<open>Remote Exploration Relay\<close>

text \<open>
  A value of the request's \<open>plans\<close> array is a string or something else. \<open>trim\<close> removes
  white space and line terminators from both ends; among the code units below 256 these
  are tab, line feed, vertical tab, form feed, carriage return, space and no-break space.
  The regular expression \<open>^[0-5]+$\<close> (no flags) accepts the non-empty strings of digits
  0 to 5.
\<close>

datatype jsval = JString string | JOther

definition is_space :: "char \<Rightarrow> bool" where
  "is_space c = ((of_char c :: nat) \<in> {9, 10, 11, 12, 13, 32, 160})"

definition trim :: "string \<Rightarrow> string" where
  "trim s = rev (dropWhile is_space (rev (dropWhile is_space s)))"

definition is_door_digit :: "char \<Rightarrow> bool" where
  "is_door_digit c = (48 \<le> (of_char c :: nat) \<and> (of_char c :: nat) \<le> 53)"

definition matches_door_digits :: "string \<Rightarrow> bool" where
  "matches_door_digits s = (s \<noteq> [] \<and> list_all is_door_digit s)"

definition plan_ok :: "jsval \<Rightarrow> bool" where
  "plan_ok plan =
     (case plan of
        JOther \<Rightarrow> False
      | JString s \<Rightarrow> length (trim s) > 0 \<and> matches_door_digits (trim s))"

definition plan_trim :: "jsval \<Rightarrow> string" where
  "plan_trim plan = (case plan of JString s \<Rightarrow> trim s | JOther \<Rightarrow> [])"

definition validPlans :: "jsval list \<Rightarrow> string list" where
  "validPlans plans = map plan_trim (filter plan_ok plans)"

text \<open>
  The request: \<open>plans\<close> is \<open>None\<close> when the field is missing or not an array. What the
  remote API does is given to the model as data: each \<open>await\<close> either returns or throws,
  the thrown value being an \<open>Error\<close> with a message (\<open>Some\<close>) or not an \<open>Error\<close>
  (\<open>None\<close>). A JSON body whose fields the next log line cannot read (\<open>null\<close>, or a
  payload without \<open>results\<close>) makes that line throw inside the same \<open>try\<close>, and counts
  as a body that throws. Logging is not modelled. The relay's result is the list of HTTP
  requests it issued, in order, and either the message of the error it throws or the
  payload it returns.
\<close>

record ExploreRequest =
  req_plans :: "jsval list option"
  req_problemName :: "string option"

record ExploreResponse =
  results :: "int list list"
  queryCount :: int

datatype 'a outcome = Throws "string option" | Returns 'a

record 'a Response =
  ok :: bool
  status :: nat
  statusText :: string
  text_body :: "string outcome"
  json_body :: "'a outcome"

record Remote =
  select_fetch :: "string Response outcome"
  explore_fetch :: "ExploreResponse Response outcome"

datatype http_request =
    SelectCall string string
  | ExploreCall string "string list"

text \<open>The team credential is a constant of the source; its value is not repeated here.\<close>

definition TEAM_ID :: string where
  "TEAM_ID = ''<team id>''"

fun show_nat :: "nat \<Rightarrow> string" where
  "show_nat n =
     (if n < 10 then [char_of (48 + n)] else show_nat (n div 10) @ [char_of (48 + n mod 10)])"

text \<open>The \<open>catch\<close> block: every error thrown inside \<open>try\<close> is replaced by one new error.\<close>

definition rethrow :: "string option \<Rightarrow> string" where
  "rethrow thrown =
     ''Failed to explore aedificium: '' @
       (case thrown of Some message \<Rightarrow> message | None \<Rightarrow> ''Unknown error'')"

definition explore_step ::
  "Remote \<Rightarrow> string list \<Rightarrow> http_request list \<Rightarrow> http_request list \<times> (string + ExploreResponse)" where
  "explore_step remote plans trace =
     (let trace' = trace @ [ExploreCall TEAM_ID plans]
      in (case explore_fetch remote of
            Throws t \<Rightarrow> (trace', Inl (rethrow t))
          | Returns exploreResponse \<Rightarrow>
              if \<not> ok exploreResponse
              then (case text_body exploreResponse of
                      Throws t \<Rightarrow> (trace', Inl (rethrow t))
                    | Returns errorText \<Rightarrow>
                        (trace', Inl (rethrow (Some (''API request failed: '' @
                           show_nat (status exploreResponse) @ '' '' @
                           statusText exploreResponse)))))
              else (case json_body exploreResponse of
                      Throws t \<Rightarrow> (trace', Inl (rethrow t))
                    | Returns result \<Rightarrow> (trace', Inr result))))"

definition exploreAedificium ::
  "Remote \<Rightarrow> ExploreRequest \<Rightarrow> http_request list \<times> (string + ExploreResponse)" where
  "exploreAedificium remote request =
     (let problemName = (case req_problemName request of None \<Rightarrow> ''probatio'' | Some p \<Rightarrow> p)
      in (case req_plans request of
            None \<Rightarrow> ([], Inl ''Invalid request: plans array is required'')
          | Some plans \<Rightarrow>
              if length (validPlans plans) = 0
              then ([], Inl ''Invalid request: at least one valid plan is required (digits 0-5 only)'')
              else (let trace = [SelectCall TEAM_ID problemName]
                    in (case select_fetch remote of
                          Throws t \<Rightarrow> (trace, Inl (rethrow t))
                        | Returns selectResponse \<Rightarrow>
                            if \<not> ok selectResponse
                            then (case text_body selectResponse of
                                    Throws t \<Rightarrow> (trace, Inl (rethrow t))
                                  | Returns selectErrorText \<Rightarrow>
                                      (trace, Inl (rethrow (Some (''Problem selection failed: '' @
                                         show_nat (status selectResponse) @ '' '' @
                                         statusText selectResponse)))))
                            else (case json_body selectResponse of
                                    Throws t \<Rightarrow> (trace, Inl (rethrow t))
                                  | Returns selectResult \<Rightarrow>
                                      explore_step remote (validPlans plans) trace)))))"

section \<open>Notions used in the statements\<close>

text \<open>
  \<open>door_at rs r d\<close> is door \<open>d\<close> of room \<open>r\<close>; \<open>shape n rs\<close> says that there are \<open>n\<close> rooms
  of six doors each; a door is \<open>free\<close> while its \<open>toRoom\<close> is the sentinel \<open>-1\<close>.
  \<open>joined\<close> is the rooms array after a successful \<open>connectRooms\<close>.
\<close>

definition door_at :: "Room list \<Rightarrow> nat \<Rightarrow> nat \<Rightarrow> DoorConnection" where
  "door_at rs r d = doors (rs ! r) ! d"

definition shape :: "nat \<Rightarrow> Room list \<Rightarrow> bool" where
  "shape n rs = (length rs = n \<and> (\<forall>r<n. length (doors (rs ! r)) = 6))"

definition free :: "Room list \<Rightarrow> nat \<Rightarrow> nat \<Rightarrow> bool" where
  "free rs r d = (toRoom (door_at rs r d) = - 1)"

definition upd :: "Room list \<Rightarrow> nat \<Rightarrow> nat \<Rightarrow> DoorConnection \<Rightarrow> Room list" where
  "upd rs r d c = rs[r := (rs ! r)\<lparr>doors := (doors (rs ! r))[d := c]\<rparr>]"

definition link_to :: "nat \<Rightarrow> nat \<Rightarrow> DoorConnection" where
  "link_to r d = \<lparr>toRoom = int r, toDoor = int d\<rparr>"

definition joined :: "Room list \<Rightarrow> nat \<Rightarrow> nat \<Rightarrow> nat \<Rightarrow> nat \<Rightarrow> Room list" where
  "joined rs fr fd tr td =
     (if fr \<noteq> tr \<or> fd \<noteq> td then upd (upd rs fr fd (link_to tr td)) tr td (link_to fr fd)
      else upd rs fr fd (link_to tr td))"

text \<open>
  The invariant of construction: every assigned door points to a door of the maze, and
  that door points back. \<open>extends\<close> relates an array to a later one: the invariant holds,
  no assigned door has changed, and the rooms keep their numbers and labels.
\<close>

definition linked :: "nat \<Rightarrow> Room list \<Rightarrow> bool" where
  "linked n rs =
     (shape n rs \<and>
      (\<forall>r<n. \<forall>d<6. \<not> free rs r d \<longrightarrow>
         (\<exists>r'<n. \<exists>d'<6. door_at rs r d = link_to r' d' \<and> door_at rs r' d' = link_to r d)))"

definition extends :: "nat \<Rightarrow> Room list \<Rightarrow> Room list \<Rightarrow> bool" where
  "extends n rs rs' =
     (linked n rs' \<and>
      (\<forall>r<n. \<forall>d<6. \<not> free rs r d \<longrightarrow> door_at rs' r d = door_at rs r d) \<and>
      (\<forall>r<n. room_id (rs' ! r) = room_id (rs ! r) \<and> label (rs' ! r) = label (rs ! r)))"

text \<open>The door by which the spanning phase leaves room \<open>k\<close> for room \<open>k + 1\<close>: the first
  free one, which is door 0 in room 0 and door 1 elsewhere (door 0 being the way in).\<close>

definition exit_door :: "nat \<Rightarrow> nat" where
  "exit_door k = (if k = 0 then 0 else 1)"

definition chain_link :: "Room list \<Rightarrow> nat \<Rightarrow> bool" where
  "chain_link rs k =
     (door_at rs k (exit_door k) = link_to (k + 1) 0 \<and>
      door_at rs (k + 1) 0 = link_to k (exit_door k))"

definition chain_upto :: "nat \<Rightarrow> nat \<Rightarrow> Room list \<Rightarrow> bool" where
  "chain_upto n k rs =
     (linked n rs \<and> k < n \<and>
      (\<forall>j<k. chain_link rs j) \<and>
      (\<forall>d<6. exit_door k \<le> d \<longrightarrow> free rs k d) \<and>
      (k > 0 \<longrightarrow> \<not> free rs k 0) \<and>
      (\<forall>j<n. k < j \<longrightarrow> (\<forall>d<6. free rs j d)))"


text \<open>Characters of a plan: the decimal digits, and among them the door digits 0 to 5
  (\<open>is_door_digit\<close>, above). \<open>valid_positions i plan\<close> lists the positions of the door
  digits of \<open>plan\<close>, counted from \<open>i\<close>.\<close>

definition is_decimal_digit :: "char \<Rightarrow> bool" where
  "is_decimal_digit c = (48 \<le> (of_char c :: nat) \<and> (of_char c :: nat) \<le> 57)"

fun valid_positions :: "nat \<Rightarrow> string \<Rightarrow> nat list" where
  "valid_positions i [] = []"
| "valid_positions i (c # cs) =
     (if is_door_digit c then i # valid_positions (i + 1) cs else valid_positions (i + 1) cs)"

text \<open>The entry of the connections list that is drawn from door \<open>d\<close> of room \<open>r\<close>.\<close>

definition entry_of :: "Room list \<Rightarrow> nat \<times> nat \<Rightarrow> Connection" where
  "entry_of rs slot =
     (case slot of (r, d) \<Rightarrow>
        \<lparr>from_room = int r, from_door = int d,
         to_room = toRoom (door_at rs r d), to_door = toDoor (door_at rs r d)\<rparr>)"

definition conn :: "nat \<Rightarrow> nat \<Rightarrow> nat \<Rightarrow> nat \<Rightarrow> Connection" where
  "conn r d r' d' = \<lparr>from_room = int r, from_door = int d, to_room = int r', to_door = int d'\<rparr>"

section \<open>Example mazes\<close>

text \<open>
  The mazes built for three rooms and the default seed 12345 of both pages, written out;
  \<open>room_of\<close> makes a room from its number, its label and the targets of its six doors.
  Lemmas \<open>steps_maze_built\<close> and \<open>simulator_maze_built\<close> show that \<open>generateBuilding\<close>
  returns them.
\<close>

definition room_of :: "int \<Rightarrow> int \<Rightarrow> (int \<times> int) list \<Rightarrow> Room" where
  "room_of i l ds =
     \<lparr>room_id = i, label = l, doors = map (\<lambda>(r, d). \<lparr>toRoom = r, toDoor = d\<rparr>) ds\<rparr>"

definition steps_maze :: Building where
  "steps_maze =
     \<lparr>rooms =
        [room_of 0 0 [(1, 0), (2, 3), (0, 2), (1, 5), (1, 2), (1, 3)],
         room_of 1 1 [(0, 0), (2, 0), (0, 4), (0, 5), (1, 4), (0, 3)],
         room_of 2 2 [(1, 1), (2, 5), (2, 4), (0, 1), (2, 2), (2, 1)]],
      startingRoom = 0\<rparr>"

definition simulator_maze :: Building where
  "simulator_maze =
     \<lparr>rooms =
        [room_of 0 2 [(1, 0), (2, 2), (1, 4), (1, 5), (0, 5), (0, 4)],
         room_of 1 1 [(0, 0), (2, 0), (1, 2), (1, 3), (0, 2), (0, 3)],
         room_of 2 2 [(1, 1), (2, 4), (0, 1), (2, 3), (2, 1), (2, 5)]],
      startingRoom = 0\<rparr>"

text \<open>Two remotes for the relay: one whose selection request fails in the network, and
  one that accepts the selection and whose exploration request fails in the network,
  both with the same error message; and one that answers the selection with status 503.
  \<open>one_plan\<close> is a request whose list of three entries filters to the one plan \<open>0325\<close>.\<close>

definition select_ok :: "string Response" where
  "select_ok = \<lparr>ok = True, status = 200, statusText = ''OK'', text_body = Returns [],
                 json_body = Returns ''probatio''\<rparr>"

definition select_down :: Remote where
  "select_down = \<lparr>select_fetch = Throws (Some ''fetch failed''),
                   explore_fetch = Throws (Some ''fetch failed'')\<rparr>"

definition explore_down :: Remote where
  "explore_down = \<lparr>select_fetch = Returns select_ok,
                    explore_fetch = Throws (Some ''fetch failed'')\<rparr>"

definition select_refused :: Remote where
  "select_refused = \<lparr>select_fetch = Returns (select_ok\<lparr>ok := False, status := 503,
                                                 statusText := ''Service Unavailable''\<rparr>),
                      explore_fetch = Throws (Some ''fetch failed'')\<rparr>"

definition one_plan :: ExploreRequest where
  "one_plan = \<lparr>req_plans = Some [JString ''0325'', JString ''  '', JString ''99''],
                req_problemName = Some ''probatio''\<rparr>"

section \<open>The generator on seeds that are not negative\<close>







text \<open>Where the product is below \<open>2^53\<close>, as it is for every room count below \<open>2^22\<close>,
  \<open>nextInt\<close> is the floor of the value of \<open>next()\<close> times \<open>max\<close>, with no rounding.\<close>

lemma fl53_exact: "\<bar>x\<bar> < 2 ^ 53 \<Longrightarrow> fl53 x = x"
proof -
  assume "\<bar>x\<bar> < 2 ^ 53"
  then have "bitlen \<bar>x\<bar> \<le> 53" using bitlen_le_iff_power[of "\<bar>x\<bar>" 53] by simp
  then show ?thesis by (simp add: fl53_def Let_def)
qed

lemma nextInt_floor:
  assumes "\<bar>next_seed s * mx\<bar> < 2 ^ 53"
  shows "nextInt s mx = (fst (rng_next s), \<lfloor>snd (rng_next s) * of_int mx\<rfloor>)"
proof -
  have "\<lfloor>(of_int (next_seed s) / 2 ^ 31 :: rat) * of_int mx\<rfloor> =
        \<lfloor>(of_int (next_seed s * mx) :: rat) / of_int (2 ^ 31)\<rfloor>"
    by simp
  also have "\<dots> = next_seed s * mx div 2 ^ 31" by (rule floor_divide_of_int_eq)
  finally show ?thesis using fl53_exact[OF assms] by (simp add: nextInt_def rng_next_def)
qed

section \<open>The invariant of construction\<close>

subsection \<open>Doors, and what connectRooms does to them\<close>

lemma js_index_nat: "js_index xs (int i) = (if i < length xs then Some (xs ! i) else None)"
  by (simp add: js_index_def)

lemma js_index_Some: "js_index xs i = Some x \<longleftrightarrow> 0 \<le> i \<and> nat i < length xs \<and> x = xs ! nat i"
  by (auto simp: js_index_def)

lemma isDoorAvailable_Inr:
  assumes "shape n rs" "isDoorAvailable rs r d = Inr av"
  shows "0 \<le> r \<and> nat r < n \<and> 0 \<le> d \<and> nat d < 6 \<and> av = free rs (nat r) (nat d)"
  using assms
  by (auto simp: isDoorAvailable_def shape_def free_def door_at_def js_index_Some
           split: option.splits)

lemma isDoorAvailable_in_range:
  assumes "shape n rs" "r < n" "d < 6"
  shows "isDoorAvailable rs (int r) (int d) = Inr (free rs r d)"
  using assms
  by (simp add: isDoorAvailable_def shape_def free_def door_at_def js_index_nat)

lemma shape_upd: "shape n rs \<Longrightarrow> shape n (upd rs r d c)"
  by (cases "r < n") (auto simp: shape_def upd_def nth_list_update)

lemma door_at_upd:
  "shape n rs \<Longrightarrow> r < n \<Longrightarrow> d < 6 \<Longrightarrow> r' < n \<Longrightarrow> d' < 6 \<Longrightarrow>
   door_at (upd rs r d c) r' d' = (if r' = r \<and> d' = d then c else door_at rs r' d')"
  by (auto simp: shape_def upd_def door_at_def nth_list_update)

lemma label_upd: "label (upd rs r d c ! r') = label (rs ! r') \<and> room_id (upd rs r d c ! r') = room_id (rs ! r')"
  by (cases "r < length rs") (auto simp: upd_def nth_list_update list_update_beyond)

lemma label_joined:
  "label (joined rs fr fd tr td ! r) = label (rs ! r) \<and>
   room_id (joined rs fr fd tr td ! r) = room_id (rs ! r)"
  by (simp add: joined_def label_upd)

lemma set_door_eq:
  "shape n rs \<Longrightarrow> r < n \<Longrightarrow> d < 6 \<Longrightarrow> set_door rs (int r) (int d) c = Inr (upd rs r d c)"
  by (simp add: set_door_def shape_def upd_def js_index_nat)

lemma connectRooms_eq:
  assumes "shape n rs" "fr < n" "fd < 6" "tr < n" "td < 6"
  shows "connectRooms rs (int fr) (int fd) (int tr) (int td) = Inr (joined rs fr fd tr td)"
  using assms set_door_eq[OF shape_upd[OF assms(1)], of tr td fr fd "link_to tr td" "link_to fr fd"]
  by (auto simp: connectRooms_def set_door_eq joined_def link_to_def)

lemma shape_joined: "shape n rs \<Longrightarrow> shape n (joined rs fr fd tr td)"
  by (simp add: joined_def shape_upd)

lemma door_at_joined:
  assumes "shape n rs" "fr < n" "fd < 6" "tr < n" "td < 6" "r < n" "d < 6"
  shows "door_at (joined rs fr fd tr td) r d =
           (if r = tr \<and> d = td then link_to fr fd
            else if r = fr \<and> d = fd then link_to tr td
            else door_at rs r d)"
  using assms by (auto simp: joined_def door_at_upd[OF shape_upd] door_at_upd[OF assms(1)])

lemma free_link_to [simp]: "toRoom (link_to r d) \<noteq> - 1"
  by (simp add: link_to_def)

lemma link_to_inject [simp]: "link_to r d = link_to r' d' \<longleftrightarrow> r = r' \<and> d = d'"
  by (auto simp: link_to_def)

lemma linkedD:
  "linked n rs \<Longrightarrow> r < n \<Longrightarrow> d < 6 \<Longrightarrow> \<not> free rs r d \<Longrightarrow>
   \<exists>r'<n. \<exists>d'<6. door_at rs r d = link_to r' d' \<and> door_at rs r' d' = link_to r d"
  by (simp add: linked_def)

lemma linked_joined:
  assumes L: "linked n rs" and R: "fr < n" "fd < 6" "tr < n" "td < 6"
    and F: "free rs fr fd" "free rs tr td"
  shows "extends n rs (joined rs fr fd tr td)"
proof -
  let ?rs = "joined rs fr fd tr td"
  have S: "shape n rs" using L by (simp add: linked_def)
  have D: "\<And>r d. r < n \<Longrightarrow> d < 6 \<Longrightarrow> door_at ?rs r d =
           (if r = tr \<and> d = td then link_to fr fd
            else if r = fr \<and> d = fd then link_to tr td
            else door_at rs r d)"
    using door_at_joined[OF S R] by blast
  have keep: "\<And>r d. r < n \<Longrightarrow> d < 6 \<Longrightarrow> \<not> free rs r d \<Longrightarrow> door_at ?rs r d = door_at rs r d"
    using D F by auto
  have "\<exists>r'<n. \<exists>d'<6. door_at ?rs r d = link_to r' d' \<and> door_at ?rs r' d' = link_to r d"
    if rd: "r < n" "d < 6" and nf: "\<not> free ?rs r d" for r d
  proof -
    consider "r = tr \<and> d = td" | "\<not> (r = tr \<and> d = td)" "r = fr \<and> d = fd"
      | "\<not> (r = tr \<and> d = td)" "\<not> (r = fr \<and> d = fd)" by blast
    then show ?thesis
    proof cases
      case 1
      then show ?thesis using D[OF R(1,2)] D[OF R(3,4)] R by (intro exI[of _ fr] exI[of _ fd]) auto
    next
      case 2
      then show ?thesis using D[OF R(1,2)] D[OF R(3,4)] R by (intro exI[of _ tr] exI[of _ td]) auto
    next
      case 3
      have "door_at ?rs r d = (if r = tr \<and> d = td then link_to fr fd
            else if r = fr \<and> d = fd then link_to tr td
            else door_at rs r d)" by (rule D[OF rd])
      also have "\<dots> = door_at rs r d" using 3 by auto
      finally have same: "door_at ?rs r d = door_at rs r d" .
      then have "\<not> free rs r d" using nf by (simp add: free_def)
      then obtain r' d' where t: "r' < n" "d' < 6" "door_at rs r d = link_to r' d'"
        "door_at rs r' d' = link_to r d"
        using linkedD[OF L rd] by blast
      have "\<not> free rs r' d'" using t(4) by (simp add: free_def)
      then have "door_at ?rs r' d' = door_at rs r' d'" using keep t by simp
      then show ?thesis using t same by auto
    qed
  qed
  then show ?thesis using keep shape_joined[OF S] by (auto simp: extends_def linked_def label_joined)
qed

lemma extends_refl: "linked n rs \<Longrightarrow> extends n rs rs"
  by (simp add: extends_def)

lemma extends_trans:
  assumes "extends n rs rs1" "extends n rs1 rs2"
  shows "extends n rs rs2"
  using assms by (auto simp: extends_def free_def)

lemma extends_linked: "extends n rs rs' \<Longrightarrow> linked n rs'"
  by (simp add: extends_def)

lemma linked_shape: "linked n rs \<Longrightarrow> shape n rs"
  by (simp add: linked_def)

lemma connect_free_extends:
  assumes L: "linked n rs"
    and A1: "isDoorAvailable rs r1 d1 = Inr True" and A2: "isDoorAvailable rs r2 d2 = Inr True"
    and C: "connectRooms rs r1 d1 r2 d2 = Inr rs'"
  shows "extends n rs rs'"
proof -
  have S: "shape n rs" using L by (rule linked_shape)
  from isDoorAvailable_Inr[OF S A1] isDoorAvailable_Inr[OF S A2]
  have R: "nat r1 < n" "nat d1 < 6" "nat r2 < n" "nat d2 < 6"
    and F: "free rs (nat r1) (nat d1)" "free rs (nat r2) (nat d2)"
    and I: "r1 = int (nat r1)" "d1 = int (nat d1)" "r2 = int (nat r2)" "d2 = int (nat d2)"
    by auto
  have "connectRooms rs r1 d1 r2 d2 = Inr (joined rs (nat r1) (nat d1) (nat r2) (nat d2))"
    using connectRooms_eq[OF S R] I by simp
  then have "rs' = joined rs (nat r1) (nat d1) (nat r2) (nat d2)" using C by simp
  then show ?thesis using linked_joined[OF L R F] by simp
qed

lemma connect_free_total:
  assumes L: "linked n rs"
    and A1: "isDoorAvailable rs r1 d1 = Inr True" and A2: "isDoorAvailable rs r2 d2 = Inr True"
  shows "\<exists>rs'. connectRooms rs r1 d1 r2 d2 = Inr rs'"
proof -
  have S: "shape n rs" using L by (rule linked_shape)
  from isDoorAvailable_Inr[OF S A1] isDoorAvailable_Inr[OF S A2]
  have R: "nat r1 < n" "nat d1 < 6" "nat r2 < n" "nat d2 < 6"
    and I: "r1 = int (nat r1)" "d1 = int (nat d1)" "r2 = int (nat r2)" "d2 = int (nat d2)"
    by auto
  show ?thesis using connectRooms_eq[OF S R] I by auto
qed


subsection \<open>Augmentation\<close>

lemma augment_extends:
  "linked n rs \<Longrightarrow> augment k (int n) s rs = Inr (s', rs') \<Longrightarrow> extends n rs rs'"
proof (induction k arbitrary: s rs)
  case 0
  then show ?case by (simp add: extends_refl)
next
  case (Suc k)
  obtain s1 room1 where d1: "nextInt s (int n) = (s1, room1)" by (cases "nextInt s (int n)")
  obtain s2 room2 where d2: "nextInt s1 (int n) = (s2, room2)" by (cases "nextInt s1 (int n)")
  obtain s3 door1 where d3: "nextInt s2 6 = (s3, door1)" by (cases "nextInt s2 6")
  obtain s4 door2 where d4: "nextInt s3 6 = (s4, door2)" by (cases "nextInt s3 6")
  note step = Suc.prems(2)[unfolded augment.simps d1 d2 d3 d4 Let_def prod.case]
  show ?case
  proof (cases "isDoorAvailable rs room1 door1 = Inr True \<and> isDoorAvailable rs room2 door2 = Inr True")
    case True
    then obtain rs1 where c: "connectRooms rs room1 door1 room2 door2 = Inr rs1"
      using connect_free_total[OF Suc.prems(1)] by blast
    have e1: "extends n rs rs1" using connect_free_extends[OF Suc.prems(1) _ _ c] True by simp
    have "augment k (int n) s4 rs1 = Inr (s', rs')" using step True c by simp
    then have "extends n rs1 rs'" using Suc.IH[OF extends_linked[OF e1]] by simp
    then show ?thesis using e1 extends_trans by blast
  next
    case False
    then have "augment k (int n) s4 rs = Inr (s', rs')"
      using step by (auto split: sum.splits bool.splits)
    then show ?thesis using Suc.IH[OF Suc.prems(1)] by simp
  qed
qed


subsection \<open>Closure\<close>

lemma drawTarget_unfold:
  assumes "nextInt s numRooms = (s1, t)" "nextInt s1 6 = (s2, td)"
  shows "drawTarget rs numRooms roomId door s a =
     (if a + 1 > 20 then Inr (s2, roomId, door)
      else (case isDoorAvailable rs t td of
              Inl e \<Rightarrow> Inl e
            | Inr av \<Rightarrow>
                if \<not> av \<and> \<not> (t = roomId \<and> td = door)
                then drawTarget rs numRooms roomId door s2 (a + 1)
                else Inr (s2, t, td)))"
  by (subst drawTarget.simps) (simp add: assms)

lemma drawTarget_free_aux:
  assumes S: "shape n rs" and R: "r < n" "d < 6" and F: "free rs r d"
  shows "21 - a \<le> m \<Longrightarrow> drawTarget rs (int n) (int r) (int d) s a = Inr (s', tr, td) \<Longrightarrow>
         isDoorAvailable rs tr td = Inr True"
proof (induction m arbitrary: a s)
  case 0
  obtain s1 t where d1: "nextInt s (int n) = (s1, t)" by (cases "nextInt s (int n)")
  obtain s2 dd where d2: "nextInt s1 6 = (s2, dd)" by (cases "nextInt s1 6")
  have "tr = int r \<and> td = int d" using 0 drawTarget_unfold[OF d1 d2, of rs "int r" "int d" a] by simp
  then show ?case using isDoorAvailable_in_range[OF S R] F by simp
next
  case (Suc m)
  obtain s1 t where d1: "nextInt s (int n) = (s1, t)" by (cases "nextInt s (int n)")
  obtain s2 dd where d2: "nextInt s1 6 = (s2, dd)" by (cases "nextInt s1 6")
  note u = drawTarget_unfold[OF d1 d2, of rs "int r" "int d" a]
  show ?case
  proof (cases "a + 1 > 20")
    case True
    then have "tr = int r \<and> td = int d" using Suc.prems(2) u by simp
    then show ?thesis using isDoorAvailable_in_range[OF S R] F by simp
  next
    case False
    then obtain av where av: "isDoorAvailable rs t dd = Inr av"
      using Suc.prems(2) u by (cases "isDoorAvailable rs t dd") auto
    show ?thesis
    proof (cases "\<not> av \<and> \<not> (t = int r \<and> dd = int d)")
      case True
      then have "drawTarget rs (int n) (int r) (int d) s2 (a + 1) = Inr (s', tr, td)"
        using Suc.prems(2) u False av by simp
      moreover have "21 - (a + 1) \<le> m" using Suc.prems(1) by simp
      ultimately show ?thesis using Suc.IH by blast
    next
      case c: False
      then have "tr = t \<and> td = dd" using Suc.prems(2) u False av by auto
      moreover have "av \<or> (t = int r \<and> dd = int d)" using c by blast
      ultimately show ?thesis using av isDoorAvailable_in_range[OF S R] F by auto
    qed
  qed
qed


lemma closeDoor_extends:
  assumes L: "linked n rs" and R: "r < n" "d < 6"
    and C: "closeDoor (int n) s rs (r, d) = Inr (s', rs')"
  shows "extends n rs rs' \<and> \<not> free rs' r d"
proof (cases "free rs r d")
  case False
  then have "rs' = rs"
    using C isDoorAvailable_in_range[OF linked_shape[OF L] R] by (simp add: closeDoor_def)
  then show ?thesis using False L by (simp add: extends_refl)
next
  case True
  have S: "shape n rs" using L by (rule linked_shape)
  have a: "isDoorAvailable rs (int r) (int d) = Inr True"
    using isDoorAvailable_in_range[OF S R] True by simp
  then obtain s1 tr td where dt: "drawTarget rs (int n) (int r) (int d) s 0 = Inr (s1, tr, td)"
    and c: "connectRooms rs (int r) (int d) tr td = Inr rs'"
    using C by (auto simp: closeDoor_def split: sum.splits)
  have b: "isDoorAvailable rs tr td = Inr True"
    using drawTarget_free_aux[OF S R True _ dt, of 21] by simp
  have e: "extends n rs rs'" by (rule connect_free_extends[OF L a b c])
  from isDoorAvailable_Inr[OF S b]
  have T: "nat tr < n" "nat td < 6" "tr = int (nat tr)" "td = int (nat td)" by auto
  have "rs' = joined rs r d (nat tr) (nat td)"
    using connectRooms_eq[OF S R T(1,2)] T(3,4) c by simp
  then have "door_at rs' r d = (if r = nat tr \<and> d = nat td then link_to r d else link_to (nat tr) (nat td))"
    using door_at_joined[OF S R T(1,2) R] by simp
  then have "\<not> free rs' r d" by (simp add: free_def)
  then show ?thesis using e by simp
qed


lemma closeDoors_extends:
  "linked n rs \<Longrightarrow> \<forall>(r, d)\<in>set slots. r < n \<and> d < 6 \<Longrightarrow>
   closeDoors (int n) s rs slots = Inr (s', rs') \<Longrightarrow>
   extends n rs rs' \<and> (\<forall>(r, d)\<in>set slots. \<not> free rs' r d)"
proof (induction slots arbitrary: s rs)
  case Nil
  then show ?case by (simp add: extends_refl)
next
  case (Cons slot slots)
  obtain r d where slot: "slot = (r, d)" by (cases slot)
  have R: "r < n" "d < 6" using Cons.prems(2) slot by auto
  obtain s1 rs1 where c1: "closeDoor (int n) s rs (r, d) = Inr (s1, rs1)"
    and rest: "closeDoors (int n) s1 rs1 slots = Inr (s', rs')"
    using Cons.prems(3) slot by (auto split: sum.splits)
  have e1: "extends n rs rs1" "\<not> free rs1 r d" using closeDoor_extends[OF Cons.prems(1) R c1] by auto
  have e2: "extends n rs1 rs'" "\<forall>(r, d)\<in>set slots. \<not> free rs' r d"
    using Cons.IH[OF extends_linked[OF e1(1)] _ rest] Cons.prems(2) by auto
  have "door_at rs' r d = door_at rs1 r d" using e2(1) e1(2) R by (simp add: extends_def)
  then have "\<not> free rs' r d" using e1(2) by (simp add: free_def)
  then show ?case using extends_trans[OF e1(1) e2(1)] e2(2) slot by simp
qed


lemma all_slots_set: "set (all_slots n) = {(r, d). r < n \<and> d < 6}"
  by (auto simp: all_slots_def)

subsection \<open>Initial rooms\<close>

lemma init_rooms_rooms:
  "init_rooms v is s = (s', rs) \<Longrightarrow>
   length rs = length is \<and>
   (\<forall>i<length is. doors (rs ! i) = replicate 6 unassigned \<and> room_id (rs ! i) = int (is ! i))"
proof (induction "is" arbitrary: s s' rs)
  case Nil
  then show ?case by simp
next
  case (Cons i "is")
  show ?case
  proof (cases v)
    case RandomLabels
    obtain s1 l where d: "nextInt s 4 = (s1, l)" by (cases "nextInt s 4")
    obtain s2 rs2 where r: "init_rooms RandomLabels is s1 = (s2, rs2)"
      by (cases "init_rooms RandomLabels is s1")
    have "rs = new_room i l # rs2" using Cons.prems RandomLabels d r by simp
    then show ?thesis using Cons.IH[of s1 s2 rs2] r RandomLabels
      by (auto simp: nth_Cons' new_room_def)
  next
    case IndexLabels
    obtain s2 rs2 where r: "init_rooms IndexLabels is s = (s2, rs2)"
      by (cases "init_rooms IndexLabels is s")
    have "rs = new_room i (int i mod 4) # rs2" using Cons.prems IndexLabels r by simp
    then show ?thesis using Cons.IH[of s s2 rs2] r IndexLabels
      by (auto simp: nth_Cons' new_room_def)
  qed
qed


lemma init_rooms_free:
  assumes "init_rooms v [0..<n] s = (s', rs)"
  shows "shape n rs \<and> (\<forall>r<n. \<forall>d<6. free rs r d)"
  using init_rooms_rooms[OF assms]
  by (auto simp: shape_def free_def door_at_def unassigned_def)

lemma init_rooms_chain:
  assumes "init_rooms v [0..<n] s = (s', rs)" "0 < n"
  shows "chain_upto n 0 rs"
  using init_rooms_free[OF assms(1)] assms(2)
  by (auto simp: chain_upto_def linked_def)

subsection \<open>Spanning\<close>

lemma find_index_from_first:
  "k < length cs \<Longrightarrow> \<forall>j<k. toRoom (cs ! j) \<noteq> - 1 \<Longrightarrow> toRoom (cs ! k) = - 1 \<Longrightarrow>
   find_index_from i cs = i + int k"
proof (induction cs arbitrary: i k)
  case Nil
  then show ?case by simp
next
  case (Cons c cs)
  show ?case
  proof (cases k)
    case 0
    then show ?thesis using Cons.prems by simp
  next
    case (Suc k')
    have "toRoom c \<noteq> - 1" using Cons.prems(2) Suc by auto
    moreover have "\<forall>j<k'. toRoom (cs ! j) \<noteq> - 1"
    proof (intro allI impI)
      fix j assume "j < k'"
      then have "Suc j < k" using Suc by simp
      then show "toRoom (cs ! j) \<noteq> - 1" using Cons.prems(2) by fastforce
    qed
    then have "find_index_from (i + 1) cs = i + 1 + int k'"
      using Cons.IH[of k' "i + 1"] Cons.prems Suc by auto
    ultimately show ?thesis using Suc by simp
  qed
qed

lemma findAvailable_first:
  assumes "shape n rs" "r < n" "k < 6" "\<forall>j<k. \<not> free rs r j" "free rs r k"
  shows "findAvailable (rs ! r) = int k"
  using assms find_index_from_first[of k "doors (rs ! r)" 0]
  by (simp add: findAvailable_def shape_def free_def door_at_def)

lemma scanTargets_skip:
  "set ts1 \<subseteq> set visited \<Longrightarrow>
   scanTargets rs visited cur (ts1 @ ts2) = scanTargets rs visited cur ts2"
  by (induction ts1) auto

lemma exit_door_less [simp]: "exit_door k < 6"
  by (simp add: exit_door_def)

lemma chain_findAvailable:
  assumes C: "chain_upto n k rs" and K: "Suc k < n"
  shows "findAvailable (rs ! k) = int (exit_door k)" "findAvailable (rs ! Suc k) = 0"
proof -
  have S: "shape n rs" using C by (simp add: chain_upto_def linked_def)
  have "\<forall>j<exit_door k. \<not> free rs k j" using C by (auto simp: chain_upto_def exit_door_def)
  moreover have "free rs k (exit_door k)" using C by (simp add: chain_upto_def)
  ultimately show "findAvailable (rs ! k) = int (exit_door k)"
    using findAvailable_first[OF S _ exit_door_less] K by simp
  have "free rs (Suc k) 0" using C K by (simp add: chain_upto_def)
  then show "findAvailable (rs ! Suc k) = 0"
    using findAvailable_first[OF S K, of 0] by simp
qed

lemma chain_scanTargets:
  assumes C: "chain_upto n k rs" and K: "Suc k < n"
  shows "scanTargets rs [0..<Suc k] k [0..<n] = Inr (Some (Suc k, int (exit_door k), 0))"
proof -
  have S: "shape n rs" using C by (simp add: chain_upto_def linked_def)
  have len: "length rs = n" using S by (simp add: shape_def)
  have "[0..<n] = [0..<Suc k] @ (Suc k # [Suc (Suc k)..<n])"
    using K by (metis Suc_lessD le_add2 less_imp_add_positive upt_add_eq_append upt_conv_Cons zero_le plus_nat.add_0)
  then have "scanTargets rs [0..<Suc k] k [0..<n] =
             scanTargets rs [0..<Suc k] k (Suc k # [Suc (Suc k)..<n])"
    using scanTargets_skip[of "[0..<Suc k]" "[0..<Suc k]"] by simp
  also have "\<dots> = Inr (Some (Suc k, int (exit_door k), 0))"
    using chain_findAvailable[OF C K] K len by (simp add: js_index_nat exit_door_def del: of_nat_Suc)
  finally show ?thesis .
qed

lemma chain_step:
  assumes C: "chain_upto n k rs" and K: "Suc k < n"
  shows "chain_upto n (Suc k) (joined rs k (exit_door k) (Suc k) 0)"
    and "extends n rs (joined rs k (exit_door k) (Suc k) 0)"
proof -
  let ?rs = "joined rs k (exit_door k) (Suc k) 0"
  have L: "linked n rs" using C by (simp add: chain_upto_def)
  have S: "shape n rs" using L by (rule linked_shape)
  have R: "k < n" "exit_door k < 6" "Suc k < n" "(0::nat) < 6" using K by simp_all
  have F: "free rs k (exit_door k)" "free rs (Suc k) 0" using C K by (simp_all add: chain_upto_def)
  show E: "extends n rs ?rs" by (rule linked_joined[OF L R F])
  have D: "\<And>r d. r < n \<Longrightarrow> d < 6 \<Longrightarrow> door_at ?rs r d =
           (if r = Suc k \<and> d = 0 then link_to k (exit_door k)
            else if r = k \<and> d = exit_door k then link_to (Suc k) 0
            else door_at rs r d)"
    using door_at_joined[OF S R] by blast
  have new: "chain_link ?rs k" using D[OF R(1,2)] D[OF R(3,4)] by (simp add: chain_link_def)
  have old: "chain_link ?rs j" if "j < k" for j
  proof -
    have c: "chain_link rs j" using C that by (simp add: chain_upto_def)
    have "j < n" "Suc j < n" using that K by simp_all
    then have "door_at ?rs j (exit_door j) = door_at rs j (exit_door j)"
      "door_at ?rs (Suc j) 0 = door_at rs (Suc j) 0"
      using E c by (simp_all add: extends_def chain_link_def free_def)
    then show ?thesis using c by (simp add: chain_link_def)
  qed
  have "\<forall>j<Suc k. chain_link ?rs j" using new old less_Suc_eq by auto
  moreover have "\<forall>d<6. exit_door (Suc k) \<le> d \<longrightarrow> free ?rs (Suc k) d"
    using D[OF R(3)] C K by (auto simp: free_def exit_door_def chain_upto_def)
  moreover have "\<not> free ?rs (Suc k) 0" using D[OF R(3,4)] by (simp add: free_def)
  moreover have "\<forall>j<n. Suc k < j \<longrightarrow> (\<forall>d<6. free ?rs j d)"
    using D C by (auto simp: free_def chain_upto_def)
  ultimately show "chain_upto n (Suc k) ?rs"
    using extends_linked[OF E] K by (simp add: chain_upto_def)
qed

lemma spanning_chain_aux:
  "chain_upto n k rs \<Longrightarrow> n - Suc k \<le> m \<Longrightarrow>
   \<exists>rs'. spanning n rs [0..<Suc k] [k] = Inr rs' \<and> extends n rs rs' \<and> chain_upto n (n - 1) rs'"
proof (induction m arbitrary: k rs)
  case 0
  then have "Suc k = n" by (simp add: chain_upto_def)
  then show ?case using 0 by (auto simp: extends_refl chain_upto_def)
next
  case (Suc m)
  show ?case
  proof (cases "Suc k < n")
    case False
    then have "Suc k = n" using Suc.prems by (simp add: chain_upto_def)
    then show ?thesis using Suc.prems by (auto simp: extends_refl chain_upto_def)
  next
    case True
    let ?rs = "joined rs k (exit_door k) (Suc k) 0"
    have S: "shape n rs" using Suc.prems(1) by (simp add: chain_upto_def linked_def)
    have c: "connectRooms rs (int k) (int (exit_door k)) (int (Suc k)) 0 = Inr ?rs"
      using connectRooms_eq[OF S, of k "exit_door k" "Suc k" 0] True by simp
    have "spanning n rs [0..<Suc k] [k] = spanning n ?rs ([0..<Suc k] @ [Suc k]) ([] @ [Suc k])"
      using True chain_scanTargets[OF Suc.prems(1) True] c by simp
    then have eq: "spanning n rs [0..<Suc k] [k] = spanning n ?rs [0..<Suc (Suc k)] [Suc k]"
      by simp
    have "n - Suc (Suc k) \<le> m" using Suc.prems(2) by simp
    from Suc.IH[OF chain_step(1)[OF Suc.prems(1) True] this]
    obtain rs' where r: "spanning n ?rs [0..<Suc (Suc k)] [Suc k] = Inr rs'"
      "extends n ?rs rs'" "chain_upto n (n - 1) rs'" by blast
    show ?thesis
      using eq r extends_trans[OF chain_step(2)[OF Suc.prems(1) True] r(2)] by simp
  qed
qed

lemma spanning_chain:
  assumes "init_rooms v [0..<n] s = (s', rs)" "0 < n"
  shows "\<exists>rs'. spanning n rs [0] [0] = Inr rs' \<and> linked n rs' \<and> (\<forall>k. Suc k < n \<longrightarrow> chain_link rs' k)"
proof -
  from spanning_chain_aux[OF init_rooms_chain[OF assms], of n]
  obtain rs' where "spanning n rs [0..<Suc 0] [0] = Inr rs'" "extends n rs rs'" "chain_upto n (n - 1) rs'"
    by auto
  then show ?thesis by (auto simp: chain_upto_def extends_def)
qed

subsection \<open>generateBuilding\<close>

lemma init_rooms_ids:
  assumes "init_rooms v [0..<n] s = (s', rs)"
  shows "\<forall>r<n. room_id (rs ! r) = int r"
  using init_rooms_rooms[OF assms] by simp

lemma generateBuilding_phases:
  assumes N: "0 < n" and G: "generateBuilding v n seed = Inr b"
  shows "\<exists>rs1. spanning n (snd (init_rooms v [0..<n] seed)) [0] [0] = Inr rs1 \<and>
           (\<forall>k. Suc k < n \<longrightarrow> chain_link rs1 k) \<and>
           extends n rs1 (rooms b) \<and>
           (\<forall>r<n. \<forall>d<6. \<not> free (rooms b) r d) \<and>
           (\<forall>r<n. room_id (rooms b ! r) = int r) \<and>
           startingRoom b = 0"
proof -
  obtain s0 rs0 where i: "init_rooms v [0..<n] seed = (s0, rs0)"
    by (cases "init_rooms v [0..<n] seed")
  from spanning_chain_aux[OF init_rooms_chain[OF i N], of n]
  obtain rs1 where sp: "spanning n rs0 [0] [0] = Inr rs1" and e0: "extends n rs0 rs1"
    and ch: "chain_upto n (n - 1) rs1" by auto
  have L1: "linked n rs1" using e0 by (rule extends_linked)
  obtain s1 rs2 where au: "augment (n * 2) (int n) s0 rs1 = Inr (s1, rs2)"
    and rest: "(case closeDoors (int n) s1 rs2 (all_slots n) of
                  Inl e \<Rightarrow> Inl e
                | Inr (s2, rs3) \<Rightarrow> Inr \<lparr>rooms = rs3, startingRoom = 0\<rparr>) = Inr b"
    using G i sp by (auto simp: generateBuilding_def split: sum.splits)
  obtain s2 rs3 where cl: "closeDoors (int n) s1 rs2 (all_slots n) = Inr (s2, rs3)"
    and b: "b = \<lparr>rooms = rs3, startingRoom = 0\<rparr>"
    using rest by (auto split: sum.splits)
  have e1: "extends n rs1 rs2" by (rule augment_extends[OF L1 au])
  have e2: "extends n rs2 rs3" "\<forall>(r, d)\<in>set (all_slots n). \<not> free rs3 r d"
    using closeDoors_extends[OF extends_linked[OF e1] _ cl] by (auto simp: all_slots_set)
  have e: "extends n rs1 rs3" by (rule extends_trans[OF e1 e2(1)])
  have ids: "\<forall>r<n. room_id (rs3 ! r) = int r"
    using extends_trans[OF e0 e] init_rooms_ids[OF i] by (simp add: extends_def)
  have "\<forall>k. Suc k < n \<longrightarrow> chain_link rs1 k" using ch by (auto simp: chain_upto_def)
  then show ?thesis using i sp e e2(2) ids b by (auto simp: all_slots_set)
qed


subsection \<open>The only error is the TypeError\<close>

lemma isDoorAvailable_Inl: "isDoorAvailable rs r d = Inl e \<Longrightarrow> e = TypeError"
  by (auto simp: isDoorAvailable_def split: option.splits)

lemma augment_Inl:
  "linked n rs \<Longrightarrow> augment k (int n) s rs = Inl e \<Longrightarrow> e = TypeError"
proof (induction k arbitrary: s rs)
  case 0
  then show ?case by simp
next
  case (Suc k)
  obtain s1 room1 where d1: "nextInt s (int n) = (s1, room1)" by (cases "nextInt s (int n)")
  obtain s2 room2 where d2: "nextInt s1 (int n) = (s2, room2)" by (cases "nextInt s1 (int n)")
  obtain s3 door1 where d3: "nextInt s2 6 = (s3, door1)" by (cases "nextInt s2 6")
  obtain s4 door2 where d4: "nextInt s3 6 = (s4, door2)" by (cases "nextInt s3 6")
  note step = Suc.prems(2)[unfolded augment.simps d1 d2 d3 d4 Let_def prod.case]
  show ?case
  proof (cases "isDoorAvailable rs room1 door1 = Inr True \<and> isDoorAvailable rs room2 door2 = Inr True")
    case True
    then obtain rs1 where c: "connectRooms rs room1 door1 room2 door2 = Inr rs1"
      using connect_free_total[OF Suc.prems(1)] by blast
    have e1: "extends n rs rs1" using connect_free_extends[OF Suc.prems(1) _ _ c] True by simp
    have "augment k (int n) s4 rs1 = Inl e" using step True c by simp
    then show ?thesis using Suc.IH[OF extends_linked[OF e1]] by simp
  next
    case False
    then have "augment k (int n) s4 rs = Inl e \<or> isDoorAvailable rs room1 door1 = Inl e
               \<or> isDoorAvailable rs room2 door2 = Inl e"
      using step by (auto split: sum.splits bool.splits)
    then show ?thesis using Suc.IH[OF Suc.prems(1)] isDoorAvailable_Inl by blast
  qed
qed

lemma drawTarget_Inl:
  "21 - a \<le> m \<Longrightarrow> drawTarget rs numRooms roomId door s a = Inl e \<Longrightarrow> e = TypeError"
proof (induction m arbitrary: a s)
  case 0
  obtain s1 t where d1: "nextInt s numRooms = (s1, t)" by (cases "nextInt s numRooms")
  obtain s2 dd where d2: "nextInt s1 6 = (s2, dd)" by (cases "nextInt s1 6")
  show ?case using 0 drawTarget_unfold[OF d1 d2, of rs roomId door a] by simp
next
  case (Suc m)
  obtain s1 t where d1: "nextInt s numRooms = (s1, t)" by (cases "nextInt s numRooms")
  obtain s2 dd where d2: "nextInt s1 6 = (s2, dd)" by (cases "nextInt s1 6")
  note u = drawTarget_unfold[OF d1 d2, of rs roomId door a]
  have "isDoorAvailable rs t dd = Inl e \<or> drawTarget rs numRooms roomId door s2 (a + 1) = Inl e"
    using Suc.prems(2) u by (auto split: if_splits sum.splits)
  moreover have "21 - (a + 1) \<le> m" using Suc.prems(1) by simp
  ultimately show ?case using Suc.IH isDoorAvailable_Inl by blast
qed

lemma closeDoor_Inl:
  assumes L: "linked n rs" and R: "r < n" "d < 6"
    and C: "closeDoor (int n) s rs (r, d) = Inl e"
  shows "e = TypeError"
proof -
  have S: "shape n rs" using L by (rule linked_shape)
  have a: "isDoorAvailable rs (int r) (int d) = Inr (free rs r d)"
    by (rule isDoorAvailable_in_range[OF S R])
  then have F: "free rs r d" using C by (auto simp: closeDoor_def split: bool.splits)
  show ?thesis
  proof (cases "drawTarget rs (int n) (int r) (int d) s 0")
    case (Inl e')
    then have "e' = e" using C a F by (simp add: closeDoor_def)
    moreover have "e' = TypeError" by (rule drawTarget_Inl[of 0 21, OF _ Inl]) simp
    ultimately show ?thesis by simp
  next
    case (Inr x)
    obtain s1 tr td where x: "x = (s1, tr, td)" by (cases x)
    have b: "isDoorAvailable rs tr td = Inr True"
      using drawTarget_free_aux[OF S R F, of 0 21 s s1 tr td] Inr x by simp
    obtain rs' where "connectRooms rs (int r) (int d) tr td = Inr rs'"
      using connect_free_total[OF L _ b] a F by auto
    then show ?thesis using C a F Inr x by (simp add: closeDoor_def)
  qed
qed

lemma closeDoors_Inl:
  "linked n rs \<Longrightarrow> \<forall>(r, d)\<in>set slots. r < n \<and> d < 6 \<Longrightarrow>
   closeDoors (int n) s rs slots = Inl e \<Longrightarrow> e = TypeError"
proof (induction slots arbitrary: s rs)
  case Nil
  then show ?case by simp
next
  case (Cons slot slots)
  obtain r d where slot: "slot = (r, d)" by (cases slot)
  have R: "r < n" "d < 6" using Cons.prems(2) slot by auto
  show ?case
  proof (cases "closeDoor (int n) s rs (r, d)")
    case (Inl e')
    then have "e' = e" using Cons.prems(3) slot by simp
    then show ?thesis using closeDoor_Inl[OF Cons.prems(1) R] Inl by simp
  next
    case (Inr x)
    obtain s1 rs1 where x: "x = (s1, rs1)" by (cases x)
    have e1: "extends n rs rs1" using closeDoor_extends[OF Cons.prems(1) R] Inr x by simp
    have "closeDoors (int n) s1 rs1 slots = Inl e" using Cons.prems(3) slot Inr x by simp
    then show ?thesis using Cons.IH[OF extends_linked[OF e1]] Cons.prems(2) by auto
  qed
qed

lemma generateBuilding_zero: "generateBuilding v 0 seed = Inr \<lparr>rooms = [], startingRoom = 0\<rparr>"
  by (simp add: generateBuilding_def all_slots_def)

lemma generateBuilding_no_sparse_write: "generateBuilding v n seed \<noteq> Inl SparseWrite"
proof (cases "n = 0")
  case True
  then show ?thesis by (simp add: generateBuilding_zero)
next
  case False
  then have N: "0 < n" by simp
  obtain s0 rs0 where i: "init_rooms v [0..<n] seed = (s0, rs0)"
    by (cases "init_rooms v [0..<n] seed")
  from spanning_chain_aux[OF init_rooms_chain[OF i N], of n]
  obtain rs1 where sp: "spanning n rs0 [0] [0] = Inr rs1" and e0: "extends n rs0 rs1" by auto
  have L1: "linked n rs1" using e0 by (rule extends_linked)
  show ?thesis
  proof (cases "augment (n * 2) (int n) s0 rs1")
    case (Inl e)
    then show ?thesis using augment_Inl[OF L1 Inl] i sp by (simp add: generateBuilding_def)
  next
    case (Inr x)
    obtain s1 rs2 where x: "x = (s1, rs2)" by (cases x)
    have L2: "linked n rs2" using augment_extends[OF L1] Inr x extends_linked by blast
    show ?thesis
    proof (cases "closeDoors (int n) s1 rs2 (all_slots n)")
      case (Inl e)
      have "e = TypeError" using closeDoors_Inl[OF L2 _ Inl] by (auto simp: all_slots_set)
      then show ?thesis using i sp Inr x Inl by (simp add: generateBuilding_def)
    next
      case r: (Inr y)
      then show ?thesis using i sp Inr x by (simp add: generateBuilding_def split: prod.splits)
    qed
  qed
qed

subsection \<open>Reachability\<close>

lemma built_door:
  assumes N: "0 < n" and G: "generateBuilding v n seed = Inr b" and R: "r < n" "d < 6"
  shows "\<exists>r'<n. \<exists>d'<6. door_at (rooms b) r d = link_to r' d' \<and> door_at (rooms b) r' d' = link_to r d"
proof -
  from generateBuilding_phases[OF N G]
  have "linked n (rooms b)" "\<not> free (rooms b) r d" using R by (auto simp: extends_def)
  then show ?thesis using linkedD R by blast
qed

lemma built_shape:
  assumes N: "0 < n" and G: "generateBuilding v n seed = Inr b"
  shows "shape n (rooms b)"
  using generateBuilding_phases[OF N G] by (auto simp: extends_def linked_def)



section \<open>Claims about the maze builder\<close>

lemma steps_maze_built: "generateBuilding IndexLabels 3 12345 = Inr steps_maze"
  by code_simp

lemma simulator_maze_built: "generateBuilding RandomLabels 3 12345 = Inr simulator_maze"
  by code_simp

text \<open>With a negative seed the first random room index is negative, and looking up its
  doors throws.\<close>

lemma generateBuilding_negative_seed:
  "generateBuilding IndexLabels 3 (- 1) = Inl TypeError \<and>
   generateBuilding RandomLabels 3 (- 1) = Inl TypeError"
  by code_simp





text \<open>
  C6. Door links of a built maze are symmetric: if door \<open>d\<close> of room \<open>r\<close> has the assigned
  target \<open>(r', d')\<close>, then \<open>r'\<close> is a room of the maze, \<open>d'\<close> one of its doors, and that door
  has the target \<open>(r, d)\<close>.
\<close>

theorem generateBuilding_links_symmetric:
  assumes "generateBuilding v n seed = Inr b"
    and "r < length (rooms b)" and "d < length (doors (rooms b ! r))"
    and "doors (rooms b ! r) ! d = \<lparr>toRoom = r', toDoor = d'\<rparr>" and "r' \<noteq> - 1"
  shows "0 \<le> r' \<and> nat r' < length (rooms b) \<and> 0 \<le> d' \<and> nat d' < length (doors (rooms b ! nat r')) \<and>
         doors (rooms b ! nat r') ! nat d' = \<lparr>toRoom = int r, toDoor = int d\<rparr>"
proof (cases "n = 0")
  case True
  then have "rooms b = []" using assms(1) by (auto simp: generateBuilding_zero)
  then show ?thesis using assms(2) by simp
next
  case False
  then have N: "0 < n" by simp
  have S: "shape n (rooms b)" by (rule built_shape[OF N assms(1)])
  then have R: "r < n" "d < 6" using assms(2,3) by (auto simp: shape_def)
  from built_door[OF N assms(1) R]
  obtain r2 d2 where t: "r2 < n" "d2 < 6" "door_at (rooms b) r d = link_to r2 d2"
    "door_at (rooms b) r2 d2 = link_to r d" by blast
  have "r' = int r2" "d' = int d2" using t(3) assms(4) by (auto simp: door_at_def link_to_def)
  then show ?thesis using t S by (auto simp: shape_def door_at_def link_to_def)
qed

theorem generateBuilding_links_symmetric_witness:
  "generateBuilding IndexLabels 3 12345 = Inr steps_maze \<and>
   (0::nat) < length (rooms steps_maze) \<and> (1::nat) < length (doors (rooms steps_maze ! 0)) \<and>
   doors (rooms steps_maze ! 0) ! 1 = \<lparr>toRoom = 2, toDoor = 3\<rparr> \<and> (2::int) \<noteq> - 1 \<and>
   doors (rooms steps_maze ! nat 2) ! nat 3 = \<lparr>toRoom = int 0, toDoor = int 1\<rparr>"
proof -
  note g = steps_maze_built
  have h: "(0::nat) < length (rooms steps_maze)" "(1::nat) < length (doors (rooms steps_maze ! 0))"
    "doors (rooms steps_maze ! 0) ! 1 = \<lparr>toRoom = 2, toDoor = 3\<rparr>"
    by (simp_all add: steps_maze_def room_of_def)
  show ?thesis using generateBuilding_links_symmetric[OF g h] g h by simp
qed



text \<open>
  C5. With the seed \<open>-1\<close> the first value of \<open>next()\<close> is negative, about \<open>-0.514\<close>, and
  \<open>nextInt(3)\<close> is \<open>-2\<close>: the operator \<open>%\<close> keeps the sign of its left operand. And from
  the second step on the product exceeds \<open>2^53\<close> and is rounded, so that the stored seed
  is not the one of the exact recurrence: from seed 1, 377401600 instead of 377401575.
\<close>

theorem seededRandom_negative_seed:
  "rng_next (- 1) = (- 1103502900, - (275875725 / 536870912)) \<and>
   nextInt (- 1) 3 = (- 1103502900, - 2) \<and>
   next_seed 1 = 1103527590 \<and>
   next_seed 1103527590 = 377401600 \<and>
   (1103527590 * 1103515245 + 12345) mod 2 ^ 31 = (377401575 :: int)"
  by code_simp

section \<open>Claims about the relay\<close>

lemma trim_empty_iff: "trim s = [] \<longleftrightarrow> list_all is_space s"
proof -
  have "dropWhile is_space s = [] \<longleftrightarrow> list_all is_space s"
    by (simp add: dropWhile_eq_Nil_conv list_all_iff)
  moreover have "trim s = [] \<longleftrightarrow> dropWhile is_space s = []"
  proof
    assume t: "trim s = []"
    show "dropWhile is_space s = []"
    proof (rule ccontr)
      assume ne: "dropWhile is_space s \<noteq> []"
      then have "\<not> is_space (hd (dropWhile is_space s))" by (rule hd_dropWhile)
      moreover have "hd (dropWhile is_space s) \<in> set (rev (dropWhile is_space s))"
        using ne by simp
      moreover have "\<forall>x\<in>set (rev (dropWhile is_space s)). is_space x"
        using t by (simp add: trim_def dropWhile_eq_Nil_conv)
      ultimately show False by blast
    qed
  next
    assume d: "dropWhile is_space s = []"
    show "trim s = []" by (simp only: trim_def d rev.simps dropWhile.simps)
  qed
  ultimately show ?thesis by simp
qed

lemma plan_ok_iff:
  "plan_ok p \<longleftrightarrow>
   (\<exists>s. p = JString s \<and> \<not> list_all is_space s \<and> list_all is_door_digit (trim s))"
  by (cases p) (auto simp: plan_ok_def matches_door_digits_def trim_empty_iff)

text \<open>
  C7. The relay keeps, trimmed, exactly the entries of the plan list that are strings,
  are not made of white space only (in particular not empty), and whose trimmed text
  has no character outside the digits 0 to 5; the order of the entries is kept. The
  list \<open>["0325", "  ", "99"]\<close> filters to \<open>["0325"]\<close>. If the filtered list is empty the
  relay fails at once: it issues no request and returns no payload.
\<close>

theorem relay_filters_plans:
  "validPlans plans =
     concat (map (\<lambda>p. case p of
                        JOther \<Rightarrow> []
                      | JString s \<Rightarrow>
                          if list_all is_space s \<or> \<not> list_all is_door_digit (trim s) then []
                          else [trim s]) plans) \<and>
   validPlans [JString ''0325'', JString ''  '', JString ''99''] = [''0325''] \<and>
   (req_plans request = Some plans \<and> validPlans plans = [] \<longrightarrow>
      (\<exists>message. exploreAedificium remote request = ([], Inl message)))"
proof (intro conjI impI)
  show "validPlans plans =
     concat (map (\<lambda>p. case p of
                        JOther \<Rightarrow> []
                      | JString s \<Rightarrow>
                          if list_all is_space s \<or> \<not> list_all is_door_digit (trim s) then []
                          else [trim s]) plans)"
  proof (induction plans)
    case Nil
    then show ?case by (simp add: validPlans_def)
  next
    case (Cons p plans)
    then show ?case
      by (cases p) (auto simp: validPlans_def plan_ok_iff plan_trim_def)
  qed
  show "validPlans [JString ''0325'', JString ''  '', JString ''99''] = [''0325'']"
    by code_simp
  assume "req_plans request = Some plans \<and> validPlans plans = []"
  then show "\<exists>message. exploreAedificium remote request = ([], Inl message)"
    by (simp add: exploreAedificium_def)
qed

theorem relay_filters_plans_witness:
  "req_plans \<lparr>req_plans = Some [JString ''  '', JString ''99'', JOther], req_problemName = None\<rparr>
     = Some [JString ''  '', JString ''99'', JOther] \<and>
   validPlans [JString ''  '', JString ''99'', JOther] = [] \<and>
   (\<exists>message. exploreAedificium select_down
       \<lparr>req_plans = Some [JString ''  '', JString ''99'', JOther], req_problemName = None\<rparr>
     = ([], Inl message))"
proof -
  have v: "validPlans [JString ''  '', JString ''99'', JOther] = []" by code_simp
  show ?thesis
    using relay_filters_plans[of "[JString ''  '', JString ''99'', JOther]"
        "\<lparr>req_plans = Some [JString ''  '', JString ''99'', JOther], req_problemName = None\<rparr>"
        select_down] v
    by simp
qed

text \<open>
  C8, as amended. The exploration request is issued only after the selection request
  returned a response with a success status whose body could be read. When the
  selection request throws or returns a non-success status, the relay issues no
  exploration request and returns no payload, only one error. For a non-success status
  (whose text can be read) the message names the step: \<open>Failed to explore aedificium:
  Problem selection failed:\<close> with status and status text. For a thrown error the message
  is \<open>Failed to explore aedificium:\<close> followed by the message of the thrown error (or
  \<open>Unknown error\<close>), which does not say which request failed.
\<close>

theorem relay_selection_before_exploration:
  "(ExploreCall team plans \<in> set (fst (exploreAedificium remote request)) \<longrightarrow>
      (\<exists>r x. select_fetch remote = Returns r \<and> ok r \<and> json_body r = Returns x)) \<and>
   (select_fetch remote = Throws t \<or> (select_fetch remote = Returns r \<and> \<not> ok r) \<longrightarrow>
      (\<forall>team plans. ExploreCall team plans \<notin> set (fst (exploreAedificium remote request))) \<and>
      (\<exists>message. snd (exploreAedificium remote request) = Inl message)) \<and>
   (req_plans request = Some ps \<and> validPlans ps \<noteq> [] \<and> select_fetch remote = Throws t \<longrightarrow>
      snd (exploreAedificium remote request) =
        Inl (''Failed to explore aedificium: '' @
             (case t of Some message \<Rightarrow> message | None \<Rightarrow> ''Unknown error''))) \<and>
   (req_plans request = Some ps \<and> validPlans ps \<noteq> [] \<and> select_fetch remote = Returns r \<and>
    \<not> ok r \<and> text_body r = Returns body \<longrightarrow>
      snd (exploreAedificium remote request) =
        Inl (''Failed to explore aedificium: Problem selection failed: '' @
             show_nat (status r) @ '' '' @ statusText r))"
  by (auto simp: exploreAedificium_def explore_step_def rethrow_def Let_def
           split: option.splits outcome.splits if_splits)

theorem relay_selection_before_exploration_witness:
  "select_fetch select_refused =
     Returns (select_ok\<lparr>ok := False, status := 503, statusText := ''Service Unavailable''\<rparr>) \<and>
   \<not> ok (select_ok\<lparr>ok := False, status := 503, statusText := ''Service Unavailable''\<rparr>) \<and>
   fst (exploreAedificium select_refused one_plan) = [SelectCall TEAM_ID ''probatio''] \<and>
   snd (exploreAedificium select_refused one_plan) =
     Inl ''Failed to explore aedificium: Problem selection failed: 503 Service Unavailable''"
proof -
  have v: "validPlans [JString ''0325'', JString ''  '', JString ''99''] = [''0325'']" by code_simp
  have f: "fst (exploreAedificium select_refused one_plan) = [SelectCall TEAM_ID ''probatio'']"
    by (simp add: exploreAedificium_def select_refused_def one_plan_def select_ok_def v)
  have n: "show_nat 503 = ''503''" by code_simp
  show ?thesis
    using relay_selection_before_exploration[of TEAM_ID "[]" select_refused one_plan None
        "select_ok\<lparr>ok := False, status := 503, statusText := ''Service Unavailable''\<rparr>"
        "[JString ''0325'', JString ''  '', JString ''99'']" "[]"] f v n
    by (simp add: select_refused_def one_plan_def select_ok_def)
qed

text \<open>
  C8 as stated fails: the failure does not always identify the failed step. When the
  selection request throws a network error, and when the selection succeeds and the
  exploration request throws the same error, the relay surfaces the same message,
  although the first run issued one request and the second two.
\<close>

theorem relay_failure_without_step:
  "exploreAedificium select_down one_plan =
     ([SelectCall TEAM_ID ''probatio''], Inl ''Failed to explore aedificium: fetch failed'') \<and>
   exploreAedificium explore_down one_plan =
     ([SelectCall TEAM_ID ''probatio'', ExploreCall TEAM_ID [''0325'']],
      Inl ''Failed to explore aedificium: fetch failed'')"
  by code_simp

section \<open>Claims about the walk simulators\<close>

lemma parseInt10_digit:
  "is_decimal_digit c \<Longrightarrow>
   \<exists>v. parseInt10 c = Num v \<and> 0 \<le> v \<and> v \<le> 9 \<and> (is_door_digit c \<longleftrightarrow> v \<le> 5)"
  by (auto simp: parseInt10_def is_decimal_digit_def is_door_digit_def Let_def)

lemma parseInt10_other: "\<not> is_decimal_digit c \<Longrightarrow> parseInt10 c = NaN"
  by (auto simp: parseInt10_def is_decimal_digit_def Let_def)

lemma built_walk_step:
  assumes N: "0 < n" and G: "generateBuilding v n seed = Inr b"
    and C: "0 \<le> cur" "cur < int n" and V: "0 \<le> x" "x \<le> 5"
  shows "\<exists>room c. js_index (rooms b) cur = Some room \<and> js_elem (doors room) (Num x) = Some c \<and>
           toRoom c \<noteq> - 1 \<and> 0 \<le> toRoom c \<and> toRoom c < int n \<and>
           (\<exists>room'. js_index (rooms b) (toRoom c) = Some room')"
proof -
  have S: "shape n (rooms b)" by (rule built_shape[OF N G])
  have R: "nat cur < n" "nat x < 6" using C V by simp_all
  from built_door[OF N G R]
  obtain r' d' where t: "r' < n" "door_at (rooms b) (nat cur) (nat x) = link_to r' d'" by blast
  have 1: "js_index (rooms b) cur = Some (rooms b ! nat cur)"
    using S R C by (simp add: js_index_def shape_def)
  have 2: "js_elem (doors (rooms b ! nat cur)) (Num x) = Some (link_to r' d')"
    using S R V t(2) by (simp add: js_elem_def js_index_def shape_def door_at_def)
  have 3: "js_index (rooms b) (int r') = Some (rooms b ! r')"
    using S t(1) by (simp add: js_index_nat shape_def)
  show ?thesis using 1 2 3 t(1) by (simp add: link_to_def)
qed

lemma explore_loop_digits:
  assumes N: "0 < n" and G: "generateBuilding v n seed = Inr b"
  shows "0 \<le> cur \<Longrightarrow> cur < int n \<Longrightarrow> list_all is_decimal_digit plan \<Longrightarrow>
         \<exists>ls. explore_loop b cur result plan = Inr (result @ ls) \<and>
              length ls = length (filter is_door_digit plan)"
proof (induction plan arbitrary: cur result)
  case Nil
  then show ?case by simp
next
  case (Cons c plan)
  obtain x where x: "parseInt10 c = Num x" "0 \<le> x" "x \<le> 9" "is_door_digit c \<longleftrightarrow> x \<le> 5"
    using parseInt10_digit[of c] Cons.prems(3) by auto
  have rest: "list_all is_decimal_digit plan" using Cons.prems(3) by simp
  show ?case
  proof (cases "x \<le> 5")
    case False
    then have "explore_loop b cur result (c # plan) = explore_loop b cur result plan"
      using x by (simp add: js_less_def)
    then show ?thesis using Cons.IH[OF Cons.prems(1,2) rest, of result] x False by simp
  next
    case True
    from built_walk_step[OF N G Cons.prems(1,2) x(2) True]
    obtain room dc room' where w: "js_index (rooms b) cur = Some room"
      "js_elem (doors room) (Num x) = Some dc" "toRoom dc \<noteq> - 1" "0 \<le> toRoom dc"
      "toRoom dc < int n" "js_index (rooms b) (toRoom dc) = Some room'" by blast
    have "explore_loop b cur result (c # plan) =
          explore_loop b (toRoom dc) (result @ [label room']) plan"
      using x True w by (simp add: js_less_def)
    moreover obtain ls where "explore_loop b (toRoom dc) (result @ [label room']) plan =
        Inr ((result @ [label room']) @ ls)" "length ls = length (filter is_door_digit plan)"
      using Cons.IH[OF w(4,5) rest, of "result @ [label room']"] by blast
    ultimately show ?thesis using x True by simp
  qed
qed

lemma simulateExploration_digits:
  assumes "1 \<le> n" and G: "generateBuilding v n seed = Inr b"
    and P: "list_all is_decimal_digit plan"
  shows "\<exists>ls. simulateExploration b plan = Inr (label (rooms b ! 0) # ls) \<and>
              length ls = length (filter is_door_digit plan)"
proof -
  have N: "0 < n" using assms(1) by simp
  have S: "shape n (rooms b)" by (rule built_shape[OF N G])
  have st: "startingRoom b = 0" using generateBuilding_phases[OF N G] by blast
  have 0: "js_index (rooms b) 0 = Some (rooms b ! 0)" using S N by (simp add: js_index_def shape_def)
  from explore_loop_digits[OF N G _ _ P, of 0 "[label (rooms b ! 0)]"] N
  show ?thesis by (simp add: simulateExploration_def st 0)
qed

lemma explore_loop_NaN:
  "\<not> is_decimal_digit c \<Longrightarrow> explore_loop b cur result (c # plan) = Inl TypeError"
  by (simp add: parseInt10_other js_less_def js_elem_def split: option.splits)

lemma explore_loop_non_digit:
  assumes N: "0 < n" and G: "generateBuilding v n seed = Inr b"
  shows "0 \<le> cur \<Longrightarrow> cur < int n \<Longrightarrow> \<not> list_all is_decimal_digit plan \<Longrightarrow>
         explore_loop b cur result plan = Inl TypeError"
proof (induction plan arbitrary: cur result)
  case Nil
  then show ?case by simp
next
  case (Cons c plan)
  show ?case
  proof (cases "is_decimal_digit c")
    case False
    then show ?thesis by (rule explore_loop_NaN)
  next
    case True
    then have rest: "\<not> list_all is_decimal_digit plan" using Cons.prems(3) by simp
    obtain x where x: "parseInt10 c = Num x" "0 \<le> x" "x \<le> 9"
      using parseInt10_digit[OF True] by auto
    show ?thesis
    proof (cases "x \<le> 5")
      case False
      then have "explore_loop b cur result (c # plan) = explore_loop b cur result plan"
        using x by (simp add: js_less_def)
      then show ?thesis using Cons.IH[OF Cons.prems(1,2) rest] by simp
    next
      case le: True
      from built_walk_step[OF N G Cons.prems(1,2) x(2) le]
      obtain room dc room' where w: "js_index (rooms b) cur = Some room"
        "js_elem (doors room) (Num x) = Some dc" "toRoom dc \<noteq> - 1" "0 \<le> toRoom dc"
        "toRoom dc < int n" "js_index (rooms b) (toRoom dc) = Some room'" by blast
      have "explore_loop b cur result (c # plan) =
            explore_loop b (toRoom dc) (result @ [label room']) plan"
        using x le w by (simp add: js_less_def)
      then show ?thesis using Cons.IH[OF w(4,5) rest] by simp
    qed
  qed
qed

text \<open>On a built maze the simulator returns for the plans of decimal digits, and throws
  for every other plan.\<close>

lemma simulateExploration_non_digit:
  assumes "1 \<le> n" and G: "generateBuilding v n seed = Inr b"
    and P: "\<not> list_all is_decimal_digit plan"
  shows "simulateExploration b plan = Inl TypeError"
proof -
  have N: "0 < n" using assms(1) by simp
  have S: "shape n (rooms b)" by (rule built_shape[OF N G])
  have st: "startingRoom b = 0" using generateBuilding_phases[OF N G] by blast
  have 0: "js_index (rooms b) 0 = Some (rooms b ! 0)" using S N by (simp add: js_index_def shape_def)
  from explore_loop_non_digit[OF N G _ _ P, of 0 "[label (rooms b ! 0)]"] N
  show ?thesis by (simp add: simulateExploration_def st 0)
qed

text \<open>
  C1. The simulator does not skip every character outside 0 to 5. On the maze built for
  three rooms and seed 12345, the plan \<open>a\<close> and the plan \<open>0 5\<close> make it throw a TypeError:
  \<open>parseInt\<close> gives \<open>NaN\<close>, both comparisons of the skip test are false, and the door
  \<open>doors[NaN]\<close> is \<open>undefined\<close>. Digits 6 to 9 are skipped: the plan \<open>0675\<close> gives the
  same three labels as the plan \<open>05\<close>.
\<close>

theorem simulateExploration_throws_on_non_digit:
  "generateBuilding RandomLabels 3 12345 = Inr simulator_maze \<and>
   simulateExploration simulator_maze ''a'' = Inl TypeError \<and>
   simulateExploration simulator_maze ''0 5'' = Inl TypeError \<and>
   simulateExploration simulator_maze ''05'' = Inr [2, 1, 2] \<and>
   simulateExploration simulator_maze ''0675'' = Inr [2, 1, 2]"
  by code_simp

subsection \<open>Step indices\<close>

lemma valid_positions_ge: "j \<in> set (valid_positions i plan) \<Longrightarrow> i \<le> j"
proof (induction plan arbitrary: i)
  case Nil
  then show ?case by simp
next
  case (Cons c plan)
  then show ?case by (fastforce split: if_splits)
qed

lemma valid_positions_length: "length (valid_positions i plan) = length (filter is_door_digit plan)"
  by (induction plan arbitrary: i) auto

lemma valid_positions_shift: "valid_positions (Suc i) plan = map Suc (valid_positions i plan)"
  by (induction plan arbitrary: i) auto

lemma valid_positions_filter:
  "valid_positions 0 plan = filter (\<lambda>i. is_door_digit (plan ! i)) [0..<length plan]"
proof (induction plan)
  case Nil
  then show ?case by simp
next
  case (Cons c plan)
  have "[0..<length (c # plan)] = 0 # map Suc [0..<length plan]"
    by (simp add: upt_conv_Cons map_Suc_upt del: upt_Suc)
  then have "filter (\<lambda>i. is_door_digit ((c # plan) ! i)) [0..<length (c # plan)] =
             (if is_door_digit c then [0] else []) @
             map Suc (filter (\<lambda>i. is_door_digit (plan ! i)) [0..<length plan])"
    by (simp add: filter_map comp_def)
  then show ?case using Cons.IH by (simp add: valid_positions_shift)
qed

lemma valid_positions_contiguous:
  "valid_positions i plan = [i..<i + length (valid_positions i plan)] \<longleftrightarrow>
   filter is_door_digit (dropWhile is_door_digit plan) = []"
proof (induction plan arbitrary: i)
  case Nil
  then show ?case by simp
next
  case (Cons c plan)
  show ?case
  proof (cases "is_door_digit c")
    case True
    have "[i..<i + Suc (length (valid_positions (Suc i) plan))] =
          i # [Suc i..<Suc i + length (valid_positions (Suc i) plan)]"
      by (simp add: upt_conv_Cons del: upt_Suc)
    then show ?thesis using True Cons.IH[of "Suc i"] by simp
  next
    case False
    let ?W = "valid_positions (Suc i) plan"
    have "?W = [i..<i + length ?W] \<longleftrightarrow> ?W = []"
    proof
      assume e: "?W = [i..<i + length ?W]"
      show "?W = []"
      proof (rule ccontr)
        assume ne: "?W \<noteq> []"
        then have "i \<in> set [i..<i + length ?W]" by (cases ?W) auto
        then have "i \<in> set ?W" using e by simp
        then show False using valid_positions_ge[of i "Suc i" plan] by simp
      qed
    next
      assume "?W = []"
      then show "?W = [i..<i + length ?W]" by simp
    qed
    moreover have "?W = [] \<longleftrightarrow> filter is_door_digit plan = []"
      using valid_positions_length[of "Suc i" plan] by (metis length_0_conv)
    ultimately show ?thesis using False by simp
  qed
qed

lemma steps_loop_digits:
  assumes N: "0 < n" and G: "generateBuilding v n seed = Inr b"
  shows "0 \<le> cur \<Longrightarrow> cur < int n \<Longrightarrow> list_all is_decimal_digit plan \<Longrightarrow>
         \<exists>new. steps_loop b tot cur steps i plan = Inr (steps @ new) \<and>
               (\<forall>st\<in>set new. totalSteps st = tot) \<and>
               map stepIndex new = map Suc (valid_positions i plan)"
proof (induction plan arbitrary: cur steps i)
  case Nil
  then show ?case by simp
next
  case (Cons c plan)
  obtain x where x: "parseInt10 c = Num x" "0 \<le> x" "x \<le> 9" "is_door_digit c \<longleftrightarrow> x \<le> 5"
    using parseInt10_digit[of c] Cons.prems(3) by auto
  have rest: "list_all is_decimal_digit plan" using Cons.prems(3) by simp
  show ?case
  proof (cases "x \<le> 5")
    case False
    then have "steps_loop b tot cur steps i (c # plan) = steps_loop b tot cur steps (i + 1) plan"
      using x by (simp add: js_less_def)
    then show ?thesis using Cons.IH[OF Cons.prems(1,2) rest, of steps "i + 1"] x False by simp
  next
    case True
    from built_walk_step[OF N G Cons.prems(1,2) x(2) True]
    obtain room dc room' where w: "js_index (rooms b) cur = Some room"
      "js_elem (doors room) (Num x) = Some dc" "toRoom dc \<noteq> - 1" "0 \<le> toRoom dc"
      "toRoom dc < int n" "js_index (rooms b) (toRoom dc) = Some room'" by blast
    define st where "st = \<lparr>currentState =
         \<lparr>st_roomId = toRoom dc, st_label = label room', doorTaken = None\<rparr>,
       previousState = Some \<lparr>st_roomId = cur, st_label = label room, doorTaken = Some x\<rparr>,
       stepIndex = i + 1, totalSteps = tot\<rparr>"
    have "steps_loop b tot cur steps i (c # plan) =
          steps_loop b tot (toRoom dc) (steps @ [st]) (i + 1) plan"
      using x True w by (simp add: js_less_def st_def Let_def)
    moreover obtain new where "steps_loop b tot (toRoom dc) (steps @ [st]) (i + 1) plan =
        Inr ((steps @ [st]) @ new)" "\<forall>s\<in>set new. totalSteps s = tot"
        "map stepIndex new = map Suc (valid_positions (i + 1) plan)"
      using Cons.IH[OF w(4,5) rest, of "steps @ [st]" "i + 1"] by blast
    ultimately have "steps_loop b tot cur steps i (c # plan) = Inr (steps @ (st # new)) \<and>
        (\<forall>s\<in>set (st # new). totalSteps s = tot) \<and>
        map stepIndex (st # new) = map Suc (valid_positions i (c # plan))"
      using x True by (simp add: st_def)
    then show ?thesis by blast
  qed
qed

lemma parseInt10_door_digit:
  "parseInt10 c = Num x \<Longrightarrow> is_door_digit c \<longleftrightarrow> 0 \<le> x \<and> x \<le> 5"
  by (auto simp: parseInt10_def is_door_digit_def Let_def split: if_splits)

lemma steps_loop_indices:
  "steps_loop b tot cur steps i plan = Inr res \<Longrightarrow>
   \<exists>new. res = steps @ new \<and> (\<forall>st\<in>set new. totalSteps st = tot) \<and>
         map stepIndex new = map Suc (valid_positions i plan)"
proof (induction plan arbitrary: cur steps i)
  case Nil
  then show ?case by simp
next
  case (Cons c plan)
  show ?case
  proof (cases "parseInt10 c")
    case NaN
    then have "steps_loop b tot cur steps i (c # plan) = Inl TypeError"
      by (simp add: js_less_def js_elem_def split: option.splits)
    then show ?thesis using Cons.prems by simp
  next
    case (Num x)
    show ?thesis
    proof (cases "0 \<le> x \<and> x \<le> 5")
      case False
      then have "steps_loop b tot cur steps (i + 1) plan = Inr res"
        using Cons.prems Num by (auto simp: js_less_def)
      then show ?thesis
        using Cons.IH[of cur steps "i + 1"] parseInt10_door_digit[OF Num] False by simp
    next
      case True
      then obtain room dc room' where w: "js_index (rooms b) cur = Some room"
        "js_elem (doors room) (Num x) = Some dc"
        "js_index (rooms b) (if toRoom dc \<noteq> - 1 then toRoom dc else cur) = Some room'"
        using Cons.prems Num
        by (auto simp: js_less_def Let_def split: option.splits)
      define cur' where "cur' = (if toRoom dc \<noteq> - 1 then toRoom dc else cur)"
      define st where "st = \<lparr>currentState =
           \<lparr>st_roomId = cur', st_label = label room', doorTaken = None\<rparr>,
         previousState = Some \<lparr>st_roomId = cur, st_label = label room, doorTaken = Some x\<rparr>,
         stepIndex = i + 1, totalSteps = tot\<rparr>"
      have "steps_loop b tot cur' (steps @ [st]) (i + 1) plan = Inr res"
        using Cons.prems Num True w by (simp add: js_less_def Let_def st_def cur'_def)
      from Cons.IH[OF this]
      obtain new where "res = (steps @ [st]) @ new" "\<forall>s\<in>set new. totalSteps s = tot"
        "map stepIndex new = map Suc (valid_positions (i + 1) plan)" by blast
      then have "res = steps @ (st # new) \<and> (\<forall>s\<in>set (st # new). totalSteps s = tot) \<and>
          map stepIndex (st # new) = map Suc (valid_positions i (c # plan))"
        using parseInt10_door_digit[OF Num] True by (simp add: st_def)
      then show ?thesis by blast
    qed
  qed
qed

lemma step_indices_facts:
  assumes t: "\<forall>st\<in>set steps. totalSteps st = length plan + 1"
    and ix: "map stepIndex steps = 0 # map Suc (valid_positions 0 plan)"
  shows "(\<forall>st\<in>set steps. totalSteps st = length plan + 1) \<and>
         map stepIndex steps =
           0 # map Suc (filter (\<lambda>i. is_door_digit (plan ! i)) [0..<length plan]) \<and>
         length steps = 1 + length (filter is_door_digit plan) \<and>
         (\<not> list_all is_door_digit plan \<longrightarrow> length steps < length plan + 1) \<and>
         (map stepIndex steps = [0..<length steps] \<longleftrightarrow>
            filter is_door_digit (dropWhile is_door_digit plan) = [])"
proof -
  have len: "length steps = 1 + length (filter is_door_digit plan)"
    using arg_cong[OF ix, of length] by (simp add: valid_positions_length)
  have short: "length steps < length plan + 1" if "\<not> list_all is_door_digit plan"
  proof -
    have "filter is_door_digit plan \<noteq> plan" using that by (simp add: list_all_iff filter_id_conv)
    then have "length (filter is_door_digit plan) < length plan"
      using length_filter_le[of is_door_digit plan]
      by (metis filter_True le_neq_implies_less length_filter_less linorder_not_less)
    then show ?thesis using len by simp
  qed
  have up: "[0..<length steps] = 0 # map Suc [0..<length (valid_positions 0 plan)]"
    using len by (simp add: upt_conv_Cons map_Suc_upt valid_positions_length del: upt_Suc)
  have "map stepIndex steps = [0..<length steps] \<longleftrightarrow>
        0 # map Suc (valid_positions 0 plan) = 0 # map Suc [0..<length (valid_positions 0 plan)]"
    by (simp only: ix up)
  also have "\<dots> \<longleftrightarrow> valid_positions 0 plan = [0..<length (valid_positions 0 plan)]"
    by (simp only: list.inject inj_map_eq_map[OF inj_Suc] simp_thms)
  finally have cont: "map stepIndex steps = [0..<length steps] \<longleftrightarrow>
        filter is_door_digit (dropWhile is_door_digit plan) = []"
    using valid_positions_contiguous[of 0 plan] by simp
  show ?thesis
    using t ix[unfolded valid_positions_filter] len short cont by blast
qed

text \<open>
  C10, as amended. Whenever \<open>simulateExplorationSteps\<close> returns a list, every step in it
  has \<open>totalSteps\<close> equal to the plan's length plus one, and the \<open>stepIndex\<close> values are 0
  followed by \<open>i + 1\<close> for each position \<open>i\<close> of a digit 0 to 5, in order. The length of
  the list is one plus the number of digits 0 to 5, so it is smaller than \<open>totalSteps\<close>
  as soon as the plan has another character. The \<open>stepIndex\<close> values are the contiguous
  run from 0 exactly when no digit 0 to 5 comes after a skipped character; otherwise
  they have a gap. On a built maze a list is returned for every plan of decimal digits.
\<close>

theorem simulateExplorationSteps_indices:
  "(\<forall>steps. simulateExplorationSteps b plan = Inr steps \<longrightarrow>
      (\<forall>st\<in>set steps. totalSteps st = length plan + 1) \<and>
      map stepIndex steps =
        0 # map Suc (filter (\<lambda>i. is_door_digit (plan ! i)) [0..<length plan]) \<and>
      length steps = 1 + length (filter is_door_digit plan) \<and>
      (\<not> list_all is_door_digit plan \<longrightarrow> length steps < length plan + 1) \<and>
      (map stepIndex steps = [0..<length steps] \<longleftrightarrow>
         filter is_door_digit (dropWhile is_door_digit plan) = [])) \<and>
   (1 \<le> n \<and> generateBuilding v n seed = Inr b \<and> list_all is_decimal_digit plan \<longrightarrow>
      (\<exists>steps. simulateExplorationSteps b plan = Inr steps))"
proof -
  have gen: "(\<forall>st\<in>set steps. totalSteps st = length plan + 1) \<and>
      map stepIndex steps =
        0 # map Suc (filter (\<lambda>i. is_door_digit (plan ! i)) [0..<length plan]) \<and>
      length steps = 1 + length (filter is_door_digit plan) \<and>
      (\<not> list_all is_door_digit plan \<longrightarrow> length steps < length plan + 1) \<and>
      (map stepIndex steps = [0..<length steps] \<longleftrightarrow>
         filter is_door_digit (dropWhile is_door_digit plan) = [])"
    if r: "simulateExplorationSteps b plan = Inr steps" for steps
  proof -
    obtain room where room: "js_index (rooms b) (startingRoom b) = Some room"
      using r by (auto simp: simulateExplorationSteps_def split: option.splits)
    define first where "first = \<lparr>currentState =
        \<lparr>st_roomId = startingRoom b, st_label = label room, doorTaken = None\<rparr>,
      previousState = None, stepIndex = 0, totalSteps = length plan + 1\<rparr>"
    have "steps_loop b (length plan + 1) (startingRoom b) [first] 0 plan = Inr steps"
      using r room by (simp add: simulateExplorationSteps_def first_def)
    from steps_loop_indices[OF this]
    obtain new where new: "steps = [first] @ new" "\<forall>s\<in>set new. totalSteps s = length plan + 1"
      "map stepIndex new = map Suc (valid_positions 0 plan)" by blast
    have t: "\<forall>s\<in>set steps. totalSteps s = length plan + 1"
      using new(1,2) by (simp add: first_def)
    have ix: "map stepIndex steps = 0 # map Suc (valid_positions 0 plan)"
      using new(1,3) by (simp add: first_def)
    show ?thesis by (rule step_indices_facts[OF t ix])
  qed
  have tot: "\<exists>steps. simulateExplorationSteps b plan = Inr steps"
    if h: "1 \<le> n \<and> generateBuilding v n seed = Inr b \<and> list_all is_decimal_digit plan"
  proof -
    have N: "0 < n" and G: "generateBuilding v n seed = Inr b"
      and P: "list_all is_decimal_digit plan" using h by simp_all
    have S: "shape n (rooms b)" by (rule built_shape[OF N G])
    have st: "startingRoom b = 0" using generateBuilding_phases[OF N G] by blast
    have 0: "js_index (rooms b) 0 = Some (rooms b ! 0)"
      using S N by (simp add: js_index_def shape_def)
    from steps_loop_digits[OF N G _ _ P, of 0] N
    show ?thesis by (simp add: simulateExplorationSteps_def st 0) blast
  qed
  show ?thesis using gen tot by blast
qed

theorem simulateExplorationSteps_indices_witness:
  "(1::nat) \<le> 3 \<and> generateBuilding IndexLabels 3 12345 = Inr steps_maze \<and>
   list_all is_decimal_digit ''0615'' \<and>
   (\<exists>steps. simulateExplorationSteps steps_maze ''0615'' = Inr steps \<and>
      map stepIndex steps = [0, 1, 3, 4] \<and> length steps = 4 \<and>
      length steps < length ''0615'' + 1 \<and> map stepIndex steps \<noteq> [0..<length steps])"
proof -
  have d: "list_all is_decimal_digit ''0615''" by code_simp
  have f: "filter (\<lambda>i. is_door_digit (''0615'' ! i)) [0..<length ''0615''] = [0, 2, 3]"
    by code_simp
  have g: "filter is_door_digit ''0615'' = ''015''"
    "filter is_door_digit (dropWhile is_door_digit ''0615'') = ''15''"
    "\<not> list_all is_door_digit ''0615''" by code_simp+
  note t = simulateExplorationSteps_indices[of steps_maze "''0615''" 3 IndexLabels 12345]
  obtain steps where r: "simulateExplorationSteps steps_maze ''0615'' = Inr steps"
    using t[THEN conjunct2] steps_maze_built d by auto
  from t[THEN conjunct1, rule_format, OF r]
  have s: "map stepIndex steps =
      0 # map Suc (filter (\<lambda>i. is_door_digit (''0615'' ! i)) [0..<length ''0615''])"
    "length steps = 1 + length (filter is_door_digit ''0615'')"
    "\<not> list_all is_door_digit ''0615'' \<longrightarrow> length steps < length ''0615'' + 1"
    "map stepIndex steps = [0..<length steps] \<longleftrightarrow>
       filter is_door_digit (dropWhile is_door_digit ''0615'') = []" by blast+
  have "map stepIndex steps = [0, 1, 3, 4]" using s(1) f by simp
  moreover have "length steps = 4" using s(2) g(1) by simp
  moreover have "length steps < length ''0615'' + 1" using s(3) g(3) by blast
  moreover have "map stepIndex steps \<noteq> [0..<length steps]" using s(4) g(2) by simp
  ultimately show ?thesis using r d steps_maze_built by auto
qed

text \<open>
  C10 as stated fails where it says that a plan with a digit 6 to 9 always yields
  non-contiguous \<open>stepIndex\<close> values: for the plan \<open>06\<close> the returned steps have the
  indices 0 and 1, with \<open>totalSteps\<close> 3.
\<close>

theorem simulateExplorationSteps_contiguous_with_skip:
  "generateBuilding IndexLabels 3 12345 = Inr steps_maze \<and>
   map_sum id (map stepIndex) (simulateExplorationSteps steps_maze ''06'') = Inr [0, 1] \<and>
   map_sum id (map totalSteps) (simulateExplorationSteps steps_maze ''06'') = Inr [3, 3]"
  by code_simp

section \<open>Claims about the connections list\<close>

lemma all_slots_product: "all_slots n = List.product [0..<n] [0..<6]"
  by (simp add: all_slots_def product_concat_map)

lemma distinct_all_slots: "distinct (all_slots n)"
  by (simp add: all_slots_product distinct_product)

lemma entry_of_inj: "entry_of rs s = entry_of rs s' \<Longrightarrow> s = s'"
  by (cases s, cases s') (simp add: entry_of_def)

text \<open>The keys that the set \<open>seen\<close> holds when the iteration reaches door \<open>d\<close> of room \<open>r\<close> of
  a built maze: one for each earlier door that leads to a room of higher number.\<close>

lemma conn_door_built:
  assumes N: "0 < n" and G: "generateBuilding v n seed = Inr b"
    and R: "r < n" "d < 6"
    and K: "set seen = {PairKey (int r0) (int d0) (toRoom (door_at (rooms b) r0 d0))
                         (toDoor (door_at (rooms b) r0 d0)) | r0 d0.
                       r0 < n \<and> d0 < 6 \<and> (r0 < r \<or> (r0 = r \<and> d0 < d)) \<and>
                       int r0 < toRoom (door_at (rooms b) r0 d0)}"
  shows "\<exists>seen'. conn_door StepsPage n (rooms b ! r) (conns, seen) d =
           Inr (conns @ (if int r \<le> toRoom (door_at (rooms b) r d)
                         then [entry_of (rooms b) (r, d)] else []), seen') \<and>
         set seen' = {PairKey (int r0) (int d0) (toRoom (door_at (rooms b) r0 d0))
                         (toDoor (door_at (rooms b) r0 d0)) | r0 d0.
                       r0 < n \<and> d0 < 6 \<and> (r0 < r \<or> (r0 = r \<and> d0 < Suc d)) \<and>
                       int r0 < toRoom (door_at (rooms b) r0 d0)}"
proof -
  let ?rs = "rooms b"
  let ?K = "\<lambda>d. {PairKey (int r0) (int d0) (toRoom (door_at ?rs r0 d0))
                         (toDoor (door_at ?rs r0 d0)) | r0 d0.
                       r0 < n \<and> d0 < 6 \<and> (r0 < r \<or> (r0 = r \<and> d0 < d)) \<and>
                       int r0 < toRoom (door_at ?rs r0 d0)}"
  have S: "shape n ?rs" by (rule built_shape[OF N G])
  have id: "room_id (?rs ! r) = int r" using generateBuilding_phases[OF N G] R by blast
  from built_door[OF N G R]
  obtain r' d' where t: "r' < n" "d' < 6" "door_at ?rs r d = link_to r' d'"
    "door_at ?rs r' d' = link_to r d" by blast
  have dc: "js_index (doors (?rs ! r)) (int d) = Some (link_to r' d')"
    using S R t(3) by (simp add: js_index_nat shape_def door_at_def)
  have step: "?K (Suc d) = ?K d \<union> (if int r < toRoom (door_at ?rs r d)
      then {PairKey (int r) (int d) (toRoom (door_at ?rs r d)) (toDoor (door_at ?rs r d))}
      else {})"
    using R by (auto simp: less_Suc_eq)
  consider "r' = r" | "r < r'" | "r' < r" by linarith
  then show ?thesis
  proof cases
    case 1
    have "conn_door StepsPage n (?rs ! r) (conns, seen) d =
          Inr (conns @ [entry_of ?rs (r, d)], seen)"
      using 1 dc id R t by (simp add: conn_door_def link_to_def entry_of_def Let_def)
    moreover have "set seen = ?K (Suc d)" using K step t(3) 1 by (simp add: link_to_def)
    ultimately show ?thesis using t(3) 1 by (simp add: link_to_def)
  next
    case 2
    let ?key = "PairKey (int r) (int d) (int r') (int d')"
    have key: "connectionKey StepsPage (int r) (int d) (int r') (int d') = ?key"
      using 2 by (simp add: connectionKey_def)
    have notin: "?key \<notin> set seen" unfolding K by auto
    have "conn_door StepsPage n (?rs ! r) (conns, seen) d =
          Inr (conns @ [entry_of ?rs (r, d)], seen @ [?key])"
      using 2 dc id R t key notin
      by (simp add: conn_door_def link_to_def entry_of_def Let_def)
    moreover have "set (seen @ [?key]) = ?K (Suc d)"
      using K step t(3) 2 by (simp add: link_to_def)
    ultimately show ?thesis using t(3) 2 by (simp add: link_to_def)
  next
    case 3
    let ?key = "PairKey (int r') (int d') (int r) (int d)"
    have key: "connectionKey StepsPage (int r) (int d) (int r') (int d') = ?key"
      using 3 by (simp add: connectionKey_def)
    have "?key \<in> ?K d"
      using t 3 by (auto simp: link_to_def intro!: exI[of _ r'] exI[of _ d'])
    then have isin: "?key \<in> set seen" using K by simp
    have "conn_door StepsPage n (?rs ! r) (conns, seen) d = Inr (conns, seen)"
      using 3 dc id R t key isin
      by (simp add: conn_door_def link_to_def Let_def)
    moreover have "set seen = ?K (Suc d)" using K step t(3) 3 by (simp add: link_to_def)
    ultimately show ?thesis using t(3) 3 by (simp add: link_to_def)
  qed
qed

lemma conn_doors_built:
  assumes N: "0 < n" and G: "generateBuilding v n seed = Inr b" and R: "r < n"
  shows "d \<le> 6 \<Longrightarrow> 6 - d \<le> m \<Longrightarrow>
         set seen = {PairKey (int r0) (int d0) (toRoom (door_at (rooms b) r0 d0))
                         (toDoor (door_at (rooms b) r0 d0)) | r0 d0.
                       r0 < n \<and> d0 < 6 \<and> (r0 < r \<or> (r0 = r \<and> d0 < d)) \<and>
                       int r0 < toRoom (door_at (rooms b) r0 d0)} \<Longrightarrow>
         \<exists>seen'. conn_doors StepsPage n (rooms b ! r) (conns, seen) [d..<6] =
           Inr (conns @ map (entry_of (rooms b))
                  (filter (\<lambda>(r, d). int r \<le> toRoom (door_at (rooms b) r d)) (map (Pair r) [d..<6])),
                seen') \<and>
         set seen' = {PairKey (int r0) (int d0) (toRoom (door_at (rooms b) r0 d0))
                         (toDoor (door_at (rooms b) r0 d0)) | r0 d0.
                       r0 < n \<and> d0 < 6 \<and> r0 < Suc r \<and>
                       int r0 < toRoom (door_at (rooms b) r0 d0)}"
proof (induction m arbitrary: d seen conns)
  case 0
  then have "d = 6" by simp
  then show ?case using 0(3) by (auto simp: less_Suc_eq)
next
  case (Suc m)
  show ?case
  proof (cases "d = 6")
    case True
    then show ?thesis using Suc.prems(3) by (auto simp: less_Suc_eq)
  next
    case False
    then have d: "d < 6" using Suc.prems(1) by simp
    from conn_door_built[OF N G R d Suc.prems(3), of conns]
    obtain seen1 where s1: "conn_door StepsPage n (rooms b ! r) (conns, seen) d =
           Inr (conns @ (if int r \<le> toRoom (door_at (rooms b) r d)
                         then [entry_of (rooms b) (r, d)] else []), seen1)"
      "set seen1 = {PairKey (int r0) (int d0) (toRoom (door_at (rooms b) r0 d0))
                         (toDoor (door_at (rooms b) r0 d0)) | r0 d0.
                       r0 < n \<and> d0 < 6 \<and> (r0 < r \<or> (r0 = r \<and> d0 < Suc d)) \<and>
                       int r0 < toRoom (door_at (rooms b) r0 d0)}" by blast
    have up: "[d..<6] = d # [Suc d..<6]" using d by (simp add: upt_conv_Cons)
    have "Suc d \<le> 6" "6 - Suc d \<le> m" using d Suc.prems(2) by simp_all
    from Suc.IH[OF this s1(2), of "conns @ (if int r \<le> toRoom (door_at (rooms b) r d)
                         then [entry_of (rooms b) (r, d)] else [])"]
    obtain seen' where s2: "conn_doors StepsPage n (rooms b ! r)
        (conns @ (if int r \<le> toRoom (door_at (rooms b) r d)
                         then [entry_of (rooms b) (r, d)] else []), seen1) [Suc d..<6] =
           Inr ((conns @ (if int r \<le> toRoom (door_at (rooms b) r d)
                         then [entry_of (rooms b) (r, d)] else [])) @ map (entry_of (rooms b))
                  (filter (\<lambda>(r, d). int r \<le> toRoom (door_at (rooms b) r d)) (map (Pair r) [Suc d..<6])),
                seen')"
      "set seen' = {PairKey (int r0) (int d0) (toRoom (door_at (rooms b) r0 d0))
                         (toDoor (door_at (rooms b) r0 d0)) | r0 d0.
                       r0 < n \<and> d0 < 6 \<and> r0 < Suc r \<and>
                       int r0 < toRoom (door_at (rooms b) r0 d0)}" by blast
    show ?thesis
      by (rule exI[of _ seen']) (simp add: up s1(1) s2)
  qed
qed

lemma conn_rooms_built:
  assumes N: "0 < n" and G: "generateBuilding v n seed = Inr b"
  shows "r \<le> n \<Longrightarrow> n - r \<le> m \<Longrightarrow>
         set seen = {PairKey (int r0) (int d0) (toRoom (door_at (rooms b) r0 d0))
                         (toDoor (door_at (rooms b) r0 d0)) | r0 d0.
                       r0 < n \<and> d0 < 6 \<and> r0 < r \<and>
                       int r0 < toRoom (door_at (rooms b) r0 d0)} \<Longrightarrow>
         \<exists>seen'. conn_rooms StepsPage n (conns, seen) (drop r (rooms b)) =
           Inr (conns @ map (entry_of (rooms b))
                  (filter (\<lambda>(r, d). int r \<le> toRoom (door_at (rooms b) r d))
                     (concat (map (\<lambda>r. map (Pair r) [0..<6]) [r..<n]))),
                seen')"
proof (induction m arbitrary: r seen conns)
  case 0
  then have "r = n" by simp
  moreover have "length (rooms b) = n" using built_shape[OF N G] by (simp add: shape_def)
  ultimately show ?case by simp
next
  case (Suc m)
  have len: "length (rooms b) = n" using built_shape[OF N G] by (simp add: shape_def)
  show ?case
  proof (cases "r = n")
    case True
    then show ?thesis using len by simp
  next
    case False
    then have r: "r < n" using Suc.prems(1) by simp
    have K0: "set seen = {PairKey (int r0) (int d0) (toRoom (door_at (rooms b) r0 d0))
                         (toDoor (door_at (rooms b) r0 d0)) | r0 d0.
                       r0 < n \<and> d0 < 6 \<and> (r0 < r \<or> (r0 = r \<and> d0 < 0)) \<and>
                       int r0 < toRoom (door_at (rooms b) r0 d0)}"
      using Suc.prems(3) by simp
    from conn_doors_built[OF N G r _ _ K0, of 6 conns]
    obtain seen1 where s1: "conn_doors StepsPage n (rooms b ! r) (conns, seen) [0..<6] =
           Inr (conns @ map (entry_of (rooms b))
                  (filter (\<lambda>(r, d). int r \<le> toRoom (door_at (rooms b) r d)) (map (Pair r) [0..<6])),
                seen1)"
      "set seen1 = {PairKey (int r0) (int d0) (toRoom (door_at (rooms b) r0 d0))
                         (toDoor (door_at (rooms b) r0 d0)) | r0 d0.
                       r0 < n \<and> d0 < 6 \<and> r0 < Suc r \<and>
                       int r0 < toRoom (door_at (rooms b) r0 d0)}" by auto
    have dr: "drop r (rooms b) = rooms b ! r # drop (Suc r) (rooms b)"
      using r len by (simp add: Cons_nth_drop_Suc)
    have up: "[r..<n] = r # [Suc r..<n]" using r by (simp add: upt_conv_Cons)
    have "Suc r \<le> n" "n - Suc r \<le> m" using r Suc.prems(2) by simp_all
    from Suc.IH[OF this s1(2), of "conns @ map (entry_of (rooms b))
                  (filter (\<lambda>(r, d). int r \<le> toRoom (door_at (rooms b) r d)) (map (Pair r) [0..<6]))"]
    obtain seen' where s2: "conn_rooms StepsPage n
        (conns @ map (entry_of (rooms b))
                  (filter (\<lambda>(r, d). int r \<le> toRoom (door_at (rooms b) r d)) (map (Pair r) [0..<6])),
         seen1) (drop (Suc r) (rooms b)) =
           Inr ((conns @ map (entry_of (rooms b))
                  (filter (\<lambda>(r, d). int r \<le> toRoom (door_at (rooms b) r d)) (map (Pair r) [0..<6]))) @
                map (entry_of (rooms b))
                  (filter (\<lambda>(r, d). int r \<le> toRoom (door_at (rooms b) r d))
                     (concat (map (\<lambda>r. map (Pair r) [0..<6]) [Suc r..<n]))),
                seen')" by blast
    show ?thesis
      by (rule exI[of _ seen']) (simp add: dr up s1(1) s2 del: upt_Suc upt.simps)
  qed
qed

lemma connections_built:
  assumes N: "0 < n" and G: "generateBuilding v n seed = Inr b"
  shows "connections StepsPage b =
           Inr (map (entry_of (rooms b))
                  (filter (\<lambda>(r, d). int r \<le> toRoom (door_at (rooms b) r d)) (all_slots n)))"
proof -
  have len: "length (rooms b) = n" using built_shape[OF N G] by (simp add: shape_def)
  from conn_rooms_built[OF N G, of 0 n "[]" "[]"]
  obtain seen' where "conn_rooms StepsPage n ([], []) (rooms b) =
           Inr (map (entry_of (rooms b))
                  (filter (\<lambda>(r, d). int r \<le> toRoom (door_at (rooms b) r d))
                     (concat (map (\<lambda>r. map (Pair r) [0..<6]) [0..<n]))), seen')"
    by auto
  then show ?thesis by (simp add: connections_def len all_slots_def)
qed

subsection \<open>Both pages: entries come from doors, and every door of a self-loop has one\<close>

lemma conn_door_any:
  assumes N: "0 < n" and G: "generateBuilding v n seed = Inr b" and R: "r < n" "d < 6"
  shows "\<exists>flag seen'. conn_door pg n (rooms b ! r) (conns, seen) d =
           Inr (conns @ (if flag then [entry_of (rooms b) (r, d)] else []), seen') \<and>
         (toRoom (door_at (rooms b) r d) = int r \<longrightarrow> flag)"
proof -
  let ?rs = "rooms b"
  have S: "shape n ?rs" by (rule built_shape[OF N G])
  have id: "room_id (?rs ! r) = int r" using generateBuilding_phases[OF N G] R by blast
  from built_door[OF N G R]
  obtain r' d' where t: "r' < n" "d' < 6" "door_at ?rs r d = link_to r' d'" by blast
  have dc: "js_index (doors (?rs ! r)) (int d) = Some (link_to r' d')"
    using S R t(3) by (simp add: js_index_nat shape_def door_at_def)
  let ?key = "connectionKey pg (int r) (int d) (int r') (int d')"
  show ?thesis
  proof (cases "r' = r \<or> ?key \<notin> set seen")
    case True
    then have "conn_door pg n (?rs ! r) (conns, seen) d =
          Inr (conns @ [entry_of ?rs (r, d)], if r \<noteq> r' then seen @ [?key] else seen)"
      using dc id R t by (auto simp: conn_door_def link_to_def entry_of_def Let_def)
    then show ?thesis by (intro exI[of _ True]) simp
  next
    case False
    then have "conn_door pg n (?rs ! r) (conns, seen) d = Inr (conns, seen)"
      using dc id R t by (auto simp: conn_door_def link_to_def Let_def)
    moreover have "toRoom (door_at ?rs r d) \<noteq> int r" using False t(3) by (auto simp: link_to_def)
    ultimately show ?thesis by (intro exI[of _ False]) simp
  qed
qed

lemma conn_doors_any:
  assumes N: "0 < n" and G: "generateBuilding v n seed = Inr b" and R: "r < n"
  shows "d \<le> 6 \<Longrightarrow> 6 - d \<le> m \<Longrightarrow>
         \<exists>sel seen'. conn_doors pg n (rooms b ! r) (conns, seen) [d..<6] =
           Inr (conns @ map (entry_of (rooms b)) sel, seen') \<and>
           distinct sel \<and> set sel \<subseteq> {(r, d') | d'. d \<le> d' \<and> d' < 6} \<and>
           (\<forall>d'. d \<le> d' \<and> d' < 6 \<and> toRoom (door_at (rooms b) r d') = int r \<longrightarrow> (r, d') \<in> set sel)"
proof (induction m arbitrary: d seen conns)
  case 0
  then have "d = 6" by simp
  then show ?case by simp
next
  case (Suc m)
  show ?case
  proof (cases "d = 6")
    case True
    then show ?thesis by simp
  next
    case False
    then have d: "d < 6" using Suc.prems(1) by simp
    from conn_door_any[OF N G R d, of pg conns seen]
    obtain flag seen1 where s1: "conn_door pg n (rooms b ! r) (conns, seen) d =
           Inr (conns @ (if flag then [entry_of (rooms b) (r, d)] else []), seen1)"
      "toRoom (door_at (rooms b) r d) = int r \<longrightarrow> flag" by blast
    have up: "[d..<6] = d # [Suc d..<6]" using d by (simp add: upt_conv_Cons)
    have "Suc d \<le> 6" "6 - Suc d \<le> m" using d Suc.prems(2) by simp_all
    from Suc.IH[OF this, of "conns @ (if flag then [entry_of (rooms b) (r, d)] else [])" seen1]
    obtain sel seen' where s2: "conn_doors pg n (rooms b ! r)
        (conns @ (if flag then [entry_of (rooms b) (r, d)] else []), seen1) [Suc d..<6] =
           Inr ((conns @ (if flag then [entry_of (rooms b) (r, d)] else [])) @
                map (entry_of (rooms b)) sel, seen')"
      "distinct sel" "set sel \<subseteq> {(r, d') | d'. Suc d \<le> d' \<and> d' < 6}"
      "\<forall>d'. Suc d \<le> d' \<and> d' < 6 \<and> toRoom (door_at (rooms b) r d') = int r \<longrightarrow> (r, d') \<in> set sel"
      by blast
    let ?sel = "(if flag then [(r, d)] else []) @ sel"
    have 1: "conn_doors pg n (rooms b ! r) (conns, seen) [d..<6] =
             Inr (conns @ map (entry_of (rooms b)) ?sel, seen')"
      by (simp add: up s1(1) s2(1))
    have 2: "distinct ?sel" using s2(2,3) by auto
    have 3: "set ?sel \<subseteq> {(r, d') | d'. d \<le> d' \<and> d' < 6}" using s2(3) d by auto
    have 4: "(r, d') \<in> set ?sel"
      if "d \<le> d' \<and> d' < 6 \<and> toRoom (door_at (rooms b) r d') = int r" for d'
    proof (cases "d' = d")
      case True
      then show ?thesis using that s1(2) by simp
    next
      case False
      then have "Suc d \<le> d'" using that by simp
      then show ?thesis using that s2(4) by simp
    qed
    show ?thesis using 1 2 3 4 by blast
  qed
qed

lemma conn_rooms_any:
  assumes N: "0 < n" and G: "generateBuilding v n seed = Inr b"
  shows "r \<le> n \<Longrightarrow> n - r \<le> m \<Longrightarrow>
         \<exists>sel seen'. conn_rooms pg n (conns, seen) (drop r (rooms b)) =
           Inr (conns @ map (entry_of (rooms b)) sel, seen') \<and>
           distinct sel \<and> set sel \<subseteq> {(r', d'). r \<le> r' \<and> r' < n \<and> d' < 6} \<and>
           (\<forall>r' d'. r \<le> r' \<and> r' < n \<and> d' < 6 \<and> toRoom (door_at (rooms b) r' d') = int r' \<longrightarrow>
              (r', d') \<in> set sel)"
proof (induction m arbitrary: r seen conns)
  case 0
  then have "r = n" by simp
  moreover have "length (rooms b) = n" using built_shape[OF N G] by (simp add: shape_def)
  ultimately show ?case by simp
next
  case (Suc m)
  have len: "length (rooms b) = n" using built_shape[OF N G] by (simp add: shape_def)
  show ?case
  proof (cases "r = n")
    case True
    then show ?thesis using len by simp
  next
    case False
    then have r: "r < n" using Suc.prems(1) by simp
    from conn_doors_any[OF N G r, of 0 6 pg conns seen]
    obtain sel1 seen1 where s1: "conn_doors pg n (rooms b ! r) (conns, seen) [0..<6] =
           Inr (conns @ map (entry_of (rooms b)) sel1, seen1)"
      "distinct sel1" "set sel1 \<subseteq> {(r, d') | d'. d' < 6}"
      "\<forall>d'. d' < 6 \<and> toRoom (door_at (rooms b) r d') = int r \<longrightarrow> (r, d') \<in> set sel1"
      by auto
    have dr: "drop r (rooms b) = rooms b ! r # drop (Suc r) (rooms b)"
      using r len by (simp add: Cons_nth_drop_Suc)
    have "Suc r \<le> n" "n - Suc r \<le> m" using r Suc.prems(2) by simp_all
    from Suc.IH[OF this, of "conns @ map (entry_of (rooms b)) sel1" seen1]
    obtain sel2 seen' where s2: "conn_rooms pg n (conns @ map (entry_of (rooms b)) sel1, seen1)
          (drop (Suc r) (rooms b)) =
           Inr ((conns @ map (entry_of (rooms b)) sel1) @ map (entry_of (rooms b)) sel2, seen')"
      "distinct sel2" "set sel2 \<subseteq> {(r', d'). Suc r \<le> r' \<and> r' < n \<and> d' < 6}"
      "\<forall>r' d'. Suc r \<le> r' \<and> r' < n \<and> d' < 6 \<and> toRoom (door_at (rooms b) r' d') = int r' \<longrightarrow>
              (r', d') \<in> set sel2"
      by blast
    let ?sel = "sel1 @ sel2"
    have 1: "conn_rooms pg n (conns, seen) (drop r (rooms b)) =
             Inr (conns @ map (entry_of (rooms b)) ?sel, seen')"
      by (simp add: dr s1(1) s2(1) del: upt_Suc upt.simps)
    have 2: "distinct ?sel" using s1(2,3) s2(2,3) by auto
    have 3: "set ?sel \<subseteq> {(r', d'). r \<le> r' \<and> r' < n \<and> d' < 6}" using s1(3) s2(3) r by auto
    have 4: "(r', d') \<in> set ?sel"
      if "r \<le> r' \<and> r' < n \<and> d' < 6 \<and> toRoom (door_at (rooms b) r' d') = int r'" for r' d'
    proof (cases "r' = r")
      case True
      then show ?thesis using that s1(4) by simp
    next
      case False
      then have "Suc r \<le> r'" using that by simp
      then show ?thesis using that s2(4) by simp
    qed
    show ?thesis using 1 2 3 4 by blast
  qed
qed

lemma connections_any:
  assumes N: "0 < n" and G: "generateBuilding v n seed = Inr b"
  shows "\<exists>sel. connections pg b = Inr (map (entry_of (rooms b)) sel) \<and>
           distinct sel \<and> set sel \<subseteq> {(r, d). r < n \<and> d < 6} \<and>
           (\<forall>r d. r < n \<and> d < 6 \<and> toRoom (door_at (rooms b) r d) = int r \<longrightarrow> (r, d) \<in> set sel)"
proof -
  have len: "length (rooms b) = n" using built_shape[OF N G] by (simp add: shape_def)
  from conn_rooms_any[OF N G, of 0 n pg "[]" "[]"]
  obtain sel seen' where s: "conn_rooms pg n ([], []) (rooms b) =
           Inr (map (entry_of (rooms b)) sel, seen')"
    "distinct sel" "set sel \<subseteq> {(r', d'). r' < n \<and> d' < 6}"
    "\<forall>r' d'. r' < n \<and> d' < 6 \<and> toRoom (door_at (rooms b) r' d') = int r' \<longrightarrow> (r', d') \<in> set sel"
    by auto
  have "connections pg b = Inr (map (entry_of (rooms b)) sel)"
    using s(1) by (simp add: connections_def len)
  then show ?thesis using s(2,3,4) by blast
qed

text \<open>
  C4, as amended. For a built maze the connections list of either page has no entry
  twice, every entry is drawn from a door of the maze and joins it to its target, and
  every door whose target is in its own room has its entry: a self-loop joining two
  different doors of a room is listed twice, once from each door, and a door joined to
  itself once. On the step-by-step page the list is exactly the entries of the doors
  whose target room has no lower number, in the order of rooms and doors: a link
  between two distinct rooms is listed once, from its room of lower number.
\<close>

theorem connections_entries:
  assumes "1 \<le> n" and "generateBuilding v n seed = Inr b"
  shows "\<exists>conns. connections pg b = Inr conns \<and> distinct conns \<and>
           (\<forall>c\<in>set conns. \<exists>r<n. \<exists>d<6. c = entry_of (rooms b) (r, d)) \<and>
           (\<forall>r<n. \<forall>d<6. \<forall>d'<6. door_at (rooms b) r d = link_to r d' \<longrightarrow>
              conn r d r d' \<in> set conns) \<and>
           (pg = StepsPage \<longrightarrow>
              conns = map (entry_of (rooms b))
                        (filter (\<lambda>(r, d). int r \<le> toRoom (door_at (rooms b) r d)) (all_slots n)) \<and>
              (\<forall>r<n. \<forall>d<6. \<forall>r'<n. \<forall>d'<6.
                 r < r' \<and> door_at (rooms b) r d = link_to r' d' \<longrightarrow>
                 conn r d r' d' \<in> set conns \<and> conn r' d' r d \<notin> set conns))"
proof -
  have N: "0 < n" using assms(1) by simp
  note G = assms(2)
  let ?rs = "rooms b"
  from connections_any[OF N G, of pg]
  obtain sel where s: "connections pg b = Inr (map (entry_of ?rs) sel)" "distinct sel"
    "set sel \<subseteq> {(r, d). r < n \<and> d < 6}"
    "\<forall>r d. r < n \<and> d < 6 \<and> toRoom (door_at ?rs r d) = int r \<longrightarrow> (r, d) \<in> set sel" by blast
  let ?conns = "map (entry_of ?rs) sel"
  have 1: "distinct ?conns"
    using s(2) by (auto simp: distinct_map inj_on_def dest: entry_of_inj)
  have 2: "\<forall>c\<in>set ?conns. \<exists>r<n. \<exists>d<6. c = entry_of ?rs (r, d)" using s(3) by auto
  have 3: "conn r d r d' \<in> set ?conns"
    if "r < n" "d < 6" "door_at ?rs r d = link_to r d'" for r d d'
  proof -
    have "(r, d) \<in> set sel" using s(4) that by (simp add: link_to_def)
    moreover have "entry_of ?rs (r, d) = conn r d r d'"
      using that(3) by (simp add: entry_of_def conn_def link_to_def)
    ultimately show ?thesis by force
  qed
  have 4: "?conns = map (entry_of ?rs)
                        (filter (\<lambda>(r, d). int r \<le> toRoom (door_at ?rs r d)) (all_slots n)) \<and>
           (\<forall>r<n. \<forall>d<6. \<forall>r'<n. \<forall>d'<6.
                 r < r' \<and> door_at ?rs r d = link_to r' d' \<longrightarrow>
                 conn r d r' d' \<in> set ?conns \<and> conn r' d' r d \<notin> set ?conns)"
    if pg: "pg = StepsPage"
  proof -
    have e: "?conns = map (entry_of ?rs)
                        (filter (\<lambda>(r, d). int r \<le> toRoom (door_at ?rs r d)) (all_slots n))"
      using s(1) connections_built[OF N G] pg by simp
    have "conn r d r' d' \<in> set ?conns \<and> conn r' d' r d \<notin> set ?conns"
      if h: "r < n" "d < 6" "r' < n" "d' < 6" "r < r'" "door_at ?rs r d = link_to r' d'"
      for r d r' d'
    proof
      have "(r, d) \<in> set (filter (\<lambda>(r, d). int r \<le> toRoom (door_at ?rs r d)) (all_slots n))"
        using h by (simp add: all_slots_set link_to_def)
      moreover have "entry_of ?rs (r, d) = conn r d r' d'"
        using h(6) by (simp add: entry_of_def conn_def link_to_def)
      ultimately show "conn r d r' d' \<in> set ?conns" unfolding e by force
      show "conn r' d' r d \<notin> set ?conns"
      proof
        assume "conn r' d' r d \<in> set ?conns"
        then obtain r0 d0 where x: "int r0 \<le> toRoom (door_at ?rs r0 d0)"
          "conn r' d' r d = entry_of ?rs (r0, d0)" unfolding e by auto
        then have "r0 = r'" "toRoom (door_at ?rs r0 d0) = int r"
          by (simp_all add: conn_def entry_of_def)
        then show False using x(1) h(5) by simp
      qed
    qed
    then show ?thesis using e by blast
  qed
  show ?thesis
  proof (intro exI[of _ ?conns] conjI impI)
    show "connections pg b = Inr ?conns" by (rule s(1))
    show "distinct ?conns" by (rule 1)
    show "\<forall>c\<in>set ?conns. \<exists>r<n. \<exists>d<6. c = entry_of ?rs (r, d)" by (rule 2)
    show "\<forall>r<n. \<forall>d<6. \<forall>d'<6. door_at ?rs r d = link_to r d' \<longrightarrow> conn r d r d' \<in> set ?conns"
      using 3 by blast
    show "?conns = map (entry_of ?rs)
                        (filter (\<lambda>(r, d). int r \<le> toRoom (door_at ?rs r d)) (all_slots n))"
      if "pg = StepsPage" using 4[OF that] by blast
    show "\<forall>r<n. \<forall>d<6. \<forall>r'<n. \<forall>d'<6.
                 r < r' \<and> door_at ?rs r d = link_to r' d' \<longrightarrow>
                 conn r d r' d' \<in> set ?conns \<and> conn r' d' r d \<notin> set ?conns"
      if "pg = StepsPage" using 4[OF that] by blast
  qed
qed

theorem connections_entries_witness:
  "(1::nat) \<le> 3 \<and> generateBuilding IndexLabels 3 12345 = Inr steps_maze \<and>
   door_at (rooms steps_maze) 0 1 = link_to 2 3 \<and>
   door_at (rooms steps_maze) 2 2 = link_to 2 4 \<and>
   door_at (rooms steps_maze) 2 4 = link_to 2 2 \<and>
   (\<exists>conns. connections StepsPage steps_maze = Inr conns \<and> distinct conns \<and>
      conn 0 1 2 3 \<in> set conns \<and> conn 2 3 0 1 \<notin> set conns \<and>
      conn 2 2 2 4 \<in> set conns \<and> conn 2 4 2 2 \<in> set conns)"
proof -
  have d: "door_at (rooms steps_maze) 0 1 = link_to 2 3"
    "door_at (rooms steps_maze) 2 2 = link_to 2 4"
    "door_at (rooms steps_maze) 2 4 = link_to 2 2"
    by (simp_all add: steps_maze_def room_of_def door_at_def link_to_def)
  from connections_entries[OF _ steps_maze_built, of StepsPage]
  obtain conns where c: "connections StepsPage steps_maze = Inr conns" "distinct conns"
    "\<forall>r<3. \<forall>d<6. \<forall>d'<6. door_at (rooms steps_maze) r d = link_to r d' \<longrightarrow>
              conn r d r d' \<in> set conns"
    "\<forall>r<3. \<forall>d<6. \<forall>r'<3. \<forall>d'<6.
                 r < r' \<and> door_at (rooms steps_maze) r d = link_to r' d' \<longrightarrow>
                 conn r d r' d' \<in> set conns \<and> conn r' d' r d \<notin> set conns"
    by auto
  have "conn 2 2 2 4 \<in> set conns" "conn 2 4 2 2 \<in> set conns"
    using c(3) d(2,3) by auto
  moreover have "conn 0 1 2 3 \<in> set conns \<and> conn 2 3 0 1 \<notin> set conns"
    using c(4)[rule_format, of 0 1 2 3] d(1) by simp
  ultimately show ?thesis using c(1,2) d steps_maze_built by auto
qed

text \<open>
  C4 as stated fails for a self-loop that joins two different doors of a room. In the
  maze of the step-by-step page for three rooms and seed 12345, doors 2 and 4 of room 2
  are joined to each other, and so are its doors 1 and 5: the list has two entries for
  each of the two. The same happens on the simulator page, for doors 4 and 5 of
  room 0 and doors 1 and 4 of room 2 of its maze.
\<close>

theorem connections_self_loop_listed_twice:
  "generateBuilding IndexLabels 3 12345 = Inr steps_maze \<and>
   door_at (rooms steps_maze) 2 2 = link_to 2 4 \<and>
   door_at (rooms steps_maze) 2 4 = link_to 2 2 \<and>
   connections StepsPage steps_maze =
     Inr [conn 0 0 1 0, conn 0 1 2 3, conn 0 2 0 2, conn 0 3 1 5, conn 0 4 1 2,
          conn 0 5 1 3, conn 1 1 2 0, conn 1 4 1 4, conn 2 1 2 5, conn 2 2 2 4,
          conn 2 4 2 2, conn 2 5 2 1] \<and>
   generateBuilding RandomLabels 3 12345 = Inr simulator_maze \<and>
   connections SimulatorPage simulator_maze =
     Inr [conn 0 0 1 0, conn 0 1 2 2, conn 0 2 1 4, conn 0 3 1 5, conn 0 4 0 5,
          conn 0 5 0 4, conn 1 1 2 0, conn 1 2 1 2, conn 1 3 1 3, conn 2 1 2 4,
          conn 2 3 2 3, conn 2 4 2 1, conn 2 5 2 5]"
  by code_simp

text \<open>On the simulator page the key of a link between two rooms is made of the smaller
  room, the smaller door, the larger room and the larger door, so two links between the
  same rooms can share a key. In the maze for three rooms and seed 20, room 0 is joined
  to room 2 by its door 2 (to door 5) and by its door 5 (to door 2); the second link has
  no entry.\<close>

lemma simulator_page_drops_link:
  "case generateBuilding RandomLabels 3 20 of
     Inl e \<Rightarrow> False
   | Inr b \<Rightarrow>
       door_at (rooms b) 0 2 = link_to 2 5 \<and> door_at (rooms b) 0 5 = link_to 2 2 \<and>
       connections SimulatorPage b =
         Inr [conn 0 0 1 0, conn 0 1 2 3, conn 0 2 2 5, conn 0 3 1 4, conn 0 4 1 2,
              conn 1 1 2 0, conn 1 3 2 4, conn 1 5 1 5, conn 2 1 2 1] \<and>
       connections StepsPage b =
         Inr [conn 0 0 1 0, conn 0 1 2 3, conn 0 2 2 5, conn 0 3 1 4, conn 0 4 1 2,
              conn 0 5 2 2, conn 1 1 2 0, conn 1 3 2 4, conn 1 5 1 5, conn 2 1 2 1]"
  by code_simp

end
